theory Spec2Isabelle
  imports Main "HOL-Library.Sublist"
begin

section \<open>JavaScript values and strings\<close>

text \<open>
  A JavaScript string is modelled as a \<^typ>\<open>string\<close>: one \<^typ>\<open>char\<close> per code unit, for
  the code units below 256, so that \<open>length\<close> is the source's \<open>.length\<close>.
  JSON values are the values \<open>JSON.parse\<close> produces; an object keeps its keys in order.
  A number is a double, kept as what this code can observe of it: whether it is zero,
  whether it is finite (\<open>JSON.parse\<close> reads \<open>1e999\<close> as \<open>Infinity\<close>), and the text that
  \<open>String(n)\<close> gives, the shortest decimal that reads back as the same double.
\<close>

datatype jsnumber = JSNumber (is_zero: bool) (is_finite: bool) (shown: string)

datatype json =
    JNull
  | JBool bool
  | JNum jsnumber
  | JStr string
  | JArr "json list"
  | JObj "(string \<times> json) list"

text \<open>A JavaScript value read from such data: \<open>None\<close> is \<open>undefined\<close>.\<close>

type_synonym jsval = "json option"

text \<open>
  \<open>String.prototype.trim\<close> strips white space and line terminators at both ends: among the
  code units below 256 these are TAB, LF, VT, FF, CR, SPACE and NBSP.
\<close>

definition is_space :: "char \<Rightarrow> bool" where
  "is_space c = (c \<in> set [CHR 0x09, CHR 0x0A, CHR 0x0B, CHR 0x0C, CHR 0x0D, CHR 0x20, CHR 0xA0])"

definition trim :: "string \<Rightarrow> string" where
  "trim s = rev (dropWhile is_space (rev (dropWhile is_space s)))"

definition startsWith :: "string \<Rightarrow> string \<Rightarrow> bool" where
  "startsWith s p = (take (length p) s = p)"

text \<open>
  \<open>xs.slice(0, e)\<close> of arrays and strings: a negative \<open>e\<close> counts from the end, and both
  ends are clamped to the length.
\<close>

definition slice0 :: "'a list \<Rightarrow> int \<Rightarrow> 'a list" where
  "slice0 xs e =
     (let n = int (length xs);
          k = (if e < 0 then max (n + e) 0 else min e n)
      in take (nat k) xs)"

section \<open>Settings, encoder, notes and messages\<close>

text \<open>
  \<open>ChatStreamSettings\<close> (settings/ChatStreamSettings.ts), without the floating-point
  \<open>temperature\<close>. The numeric settings come from \<open>parseInt\<close> and may be negative.
\<close>

record settings =
  apiKey :: string
  apiUrl :: string
  apiModel :: string
  systemPrompt :: string
  debug :: bool
  maxInputTokens :: int
  maxResponseTokens :: int
  maxDepth :: int

text \<open>
  The tokenizer returned by \<open>getEncoding\<close> is the js-tiktoken library's: it is a parameter
  of the model, a pair of functions on token numbers.
\<close>

record encoding =
  encode :: "string \<Rightarrow> nat list"
  decode :: "nat list \<Rightarrow> string"

text \<open>
  A canvas node with its incoming edges followed to the parent nodes. \<open>node_text\<close> is what
  \<open>readNodeContent\<close> returns for the node (\<open>None\<close> for null), \<open>chat_role\<close> the field of
  \<open>getData()\<close>.
\<close>

datatype canvas_node =
  CanvasNode (node_id: nat) (node_text: "string option") (chat_role: "string option")
    (parents: "canvas_node list")

datatype role = System | User | Assistant

datatype content = Text string | Parts json

record message =
  content :: content
  role :: role

record build_state =
  messages :: "message list"
  tokenCount :: int

section \<open>noteGenerator.ts: the conversation builder\<close>

definition getTokenLimit :: "settings \<Rightarrow> int" where
  "getTokenLimit st =
     (if maxInputTokens st \<noteq> 0 \<and> maxInputTokens st > 0 then maxInputTokens st else 8192)"

definition isSystemPromptNode :: "string \<Rightarrow> bool" where
  "isSystemPromptNode text = startsWith (trim text) ''SYSTEM PROMPT''"

text \<open>
  Modelled from the spec: \<open>visitNodeAndAncestors\<close> of obsidian/canvasUtil, which is not among
  the sources. Section 4.2: the visitor is invoked on the start node at depth 0, then on each
  direct ancestor at depth + 1, recursively and depth-first; a falsy result stops the descent
  along that branch, and the sibling branches still run. The visitor's effects are the state
  it passes on.
\<close>

fun visitNodeAndAncestors ::
  "(canvas_node \<Rightarrow> nat \<Rightarrow> 's \<Rightarrow> bool \<times> 's) \<Rightarrow> canvas_node \<Rightarrow> nat \<Rightarrow> 's \<Rightarrow> 's" where
  "visitNodeAndAncestors visitor (CanvasNode i t r ps) depth s =
     (case visitor (CanvasNode i t r ps) depth s of
        (True, s') \<Rightarrow> fold (\<lambda>p. visitNodeAndAncestors visitor p (Suc depth)) ps s'
      | (False, s') \<Rightarrow> s')"

text \<open>The visitor of \<open>getSystemPrompt\<close>; the state is \<open>foundPrompt\<close>.\<close>

definition promptVisitor :: "canvas_node \<Rightarrow> nat \<Rightarrow> string option \<Rightarrow> bool \<times> string option" where
  "promptVisitor n depth foundPrompt =
     (case node_text n of
        Some text \<Rightarrow>
          if text \<noteq> [] \<and> isSystemPromptNode text then (False, Some text)
          else (True, foundPrompt)
      | None \<Rightarrow> (True, foundPrompt))"

definition getSystemPrompt :: "settings \<Rightarrow> canvas_node \<Rightarrow> string" where
  "getSystemPrompt st node =
     (case visitNodeAndAncestors promptVisitor node 0 None of
        Some text \<Rightarrow> if text \<noteq> [] then text else systemPrompt st
      | None \<Rightarrow> systemPrompt st)"

definition imageMessage :: "string \<Rightarrow> message" where
  "imageMessage nodeText =
     \<lparr>content = Parts (JArr [JObj [(''type'', JStr ''image_url''),
                                    (''image_url'', JObj [(''url'', JStr nodeText)])]]),
      role = User\<rparr>"

definition nodeRole :: "canvas_node \<Rightarrow> role" where
  "nodeRole n = (if chat_role n = Some ''assistant'' then Assistant else User)"

text \<open>The closure \<open>visit\<close> of \<open>buildMessages\<close>; it returns \<open>shouldContinue\<close> and the new state.\<close>

definition visit ::
  "settings \<Rightarrow> encoding \<Rightarrow> canvas_node \<Rightarrow> nat \<Rightarrow> build_state \<Rightarrow> bool \<times> build_state" where
  "visit st enc node depth s =
     (if maxDepth st \<noteq> 0 \<and> int depth > maxDepth st then (False, s)
      else
        let nodeText = (case node_text node of None \<Rightarrow> [] | Some t \<Rightarrow> trim t);
            inputLimit = getTokenLimit st
        in
          if nodeText = [] then (True, s)
          else if startsWith nodeText ''data:image'' then
            (True, s\<lparr>messages := imageMessage nodeText # messages s\<rparr>)
          else if isSystemPromptNode nodeText then (True, s)
          else
            let nodeTokens = encode enc nodeText in
              if tokenCount s + int (length nodeTokens) > inputLimit then
                let keepTokens = slice0 nodeTokens (inputLimit - tokenCount s - 1);
                    truncateTextTo = int (length (decode enc keepTokens));
                    nodeText' = slice0 nodeText truncateTextTo
                in (False,
                    \<lparr>messages = \<lparr>content = Text nodeText', role = nodeRole node\<rparr> # messages s,
                     tokenCount = tokenCount s + int (length keepTokens)\<rparr>)
              else
                (True,
                 \<lparr>messages = \<lparr>content = Text nodeText, role = nodeRole node\<rparr> # messages s,
                  tokenCount = tokenCount s + int (length nodeTokens)\<rparr>))"

definition buildMessages ::
  "settings \<Rightarrow> encoding \<Rightarrow> canvas_node \<Rightarrow> string option \<Rightarrow> message list \<times> int" where
  "buildMessages st enc node actionPrompt =
     (let sp = getSystemPrompt st node;
          tc0 = (if sp \<noteq> [] then int (length (encode enc sp)) else 0);
          s = visitNodeAndAncestors (visit st enc) node 0 \<lparr>messages = [], tokenCount = tc0\<rparr>
      in
        if messages s \<noteq> [] then
          let ms = (if sp \<noteq> [] then \<lparr>content = Text sp, role = System\<rparr> # messages s
                    else messages s)
          in (case actionPrompt of
                Some ap \<Rightarrow>
                  if ap \<noteq> [] then
                    (ms @ [\<lparr>content = Text ap, role = User\<rparr>],
                     tokenCount s + int (length (encode enc ap)))
                  else (ms, tokenCount s)
              | None \<Rightarrow> (ms, tokenCount s))
        else ([], 0))"

section \<open>Ancestor chains\<close>

text \<open>
  An ancestor chain is a start node each of whose ancestors has at most one parent;
  \<open>path\<close> lists its nodes from the start node (the leaf) to the root.
\<close>

fun is_chain :: "canvas_node \<Rightarrow> bool" where
  "is_chain (CanvasNode i t r []) = True"
| "is_chain (CanvasNode i t r [p]) = is_chain p"
| "is_chain (CanvasNode i t r (p # q # ps)) = False"

fun path :: "canvas_node \<Rightarrow> canvas_node list" where
  "path (CanvasNode i t r [p]) = CanvasNode i t r [p] # path p"
| "path n = [n]"

text \<open>The walk along a list of nodes: what \<open>visitNodeAndAncestors\<close> does on a chain.\<close>

fun walk_list ::
  "(canvas_node \<Rightarrow> nat \<Rightarrow> 's \<Rightarrow> bool \<times> 's) \<Rightarrow> canvas_node list \<Rightarrow> nat \<Rightarrow> 's \<Rightarrow> 's" where
  "walk_list v [] d s = s"
| "walk_list v (n # ns) d s =
     (case v n d s of (True, s') \<Rightarrow> walk_list v ns (Suc d) s' | (False, s') \<Rightarrow> s')"

text \<open>The nodes the depth gate of \<open>visit\<close> lets through, for a walk that starts at depth 0.\<close>

definition within_depth :: "settings \<Rightarrow> canvas_node list \<Rightarrow> canvas_node list" where
  "within_depth st ns = (if maxDepth st = 0 then ns else take (nat (maxDepth st + 1)) ns)"

text \<open>The vocabulary of the specification: the kinds of node and what each contributes.\<close>

definition nodeText :: "canvas_node \<Rightarrow> string" where
  "nodeText n = (case node_text n of None \<Rightarrow> [] | Some t \<Rightarrow> trim t)"

definition is_image_node :: "canvas_node \<Rightarrow> bool" where
  "is_image_node n = (nodeText n \<noteq> [] \<and> startsWith (nodeText n) ''data:image'')"

definition is_text_node :: "canvas_node \<Rightarrow> bool" where
  "is_text_node n =
     (nodeText n \<noteq> [] \<and> \<not> startsWith (nodeText n) ''data:image'' \<and>
      \<not> isSystemPromptNode (nodeText n))"

definition is_marked_node :: "canvas_node \<Rightarrow> bool" where
  "is_marked_node n = (case node_text n of None \<Rightarrow> False | Some t \<Rightarrow> isSystemPromptNode t)"

definition wholeMessage :: "canvas_node \<Rightarrow> message option" where
  "wholeMessage n =
     (if is_image_node n then Some (imageMessage (nodeText n))
      else if is_text_node n then Some \<lparr>content = Text (nodeText n), role = nodeRole n\<rparr>
      else None)"

definition keptTokens :: "settings \<Rightarrow> encoding \<Rightarrow> int \<Rightarrow> canvas_node \<Rightarrow> nat list" where
  "keptTokens st enc tc n = slice0 (encode enc (nodeText n)) (getTokenLimit st - tc - 1)"

definition truncatedText :: "settings \<Rightarrow> encoding \<Rightarrow> int \<Rightarrow> canvas_node \<Rightarrow> string" where
  "truncatedText st enc tc n =
     slice0 (nodeText n) (int (length (decode enc (keptTokens st enc tc n))))"

definition truncatedMessage :: "settings \<Rightarrow> encoding \<Rightarrow> int \<Rightarrow> canvas_node \<Rightarrow> message" where
  "truncatedMessage st enc tc n =
     \<lparr>content = Text (truncatedText st enc tc n), role = nodeRole n\<rparr>"

definition nodeTokens :: "encoding \<Rightarrow> canvas_node \<Rightarrow> int" where
  "nodeTokens enc n = (if is_text_node n then int (length (encode enc (nodeText n))) else 0)"

definition chainTokens :: "encoding \<Rightarrow> canvas_node list \<Rightarrow> int" where
  "chainTokens enc ns = sum_list (map (nodeTokens enc) ns)"

definition systemCost :: "encoding \<Rightarrow> string \<Rightarrow> int" where
  "systemCost enc sp = (if sp \<noteq> [] then int (length (encode enc sp)) else 0)"

definition systemMessages :: "string \<Rightarrow> message list" where
  "systemMessages sp = (if sp \<noteq> [] then [\<lparr>content = Text sp, role = System\<rparr>] else [])"

text \<open>The content of a node as read, the empty string for null.\<close>

definition rawText :: "canvas_node \<Rightarrow> string" where
  "rawText n = (case node_text n of None \<Rightarrow> [] | Some t \<Rightarrow> t)"

text \<open>No message is a system message or carries a text that is marked as a system prompt.\<close>

definition unmarked_messages :: "message list \<Rightarrow> bool" where
  "unmarked_messages ms =
     (\<forall>m\<in>set ms. role m \<noteq> System \<and> (\<forall>t. content m = Text t \<longrightarrow> \<not> isSystemPromptNode t))"

text \<open>The nodes of a graph that the depth gate lets through, for a walk that reaches the
  node at depth \<open>d\<close>; and the nodes that \<open>visit\<close> passes over.\<close>

fun nodes_within_depth :: "settings \<Rightarrow> canvas_node \<Rightarrow> nat \<Rightarrow> canvas_node list" where
  "nodes_within_depth st (CanvasNode i t r ps) d =
     (if maxDepth st \<noteq> 0 \<and> int d > maxDepth st then []
      else CanvasNode i t r ps # concat (map (\<lambda>p. nodes_within_depth st p (Suc d)) ps))"

definition is_skipped_node :: "canvas_node \<Rightarrow> bool" where
  "is_skipped_node n = (nodeText n = [] \<or> is_marked_node n)"

section \<open>JavaScript semantics the sources rely on\<close>

text \<open>What a \<open>throw\<close> carries: a \<open>TypeError\<close> or \<open>SyntaxError\<close> of the language, or the
  error the request rejects with (its HTTP status).\<close>

datatype js_error = TypeError | SyntaxError | RequestError int

text \<open>Truthiness, \<open>Array.isArray\<close>, and reading a property: of \<open>null\<close> and \<open>undefined\<close> it
  throws, of an object it gives the value of the key (the last one, where \<open>JSON.parse\<close> met
  it twice) and otherwise \<open>undefined\<close>. The keys this code reads (\<open>content\<close>, \<open>output\<close>,
  \<open>output_text\<close>, \<open>type\<close>, \<open>text\<close>) are properties of no array, string, number or boolean.\<close>

definition truthy :: "jsval \<Rightarrow> bool" where
  "truthy v =
     (case v of
        None \<Rightarrow> False
      | Some JNull \<Rightarrow> False
      | Some (JBool b) \<Rightarrow> b
      | Some (JNum n) \<Rightarrow> \<not> is_zero n
      | Some (JStr s) \<Rightarrow> s \<noteq> []
      | Some (JArr xs) \<Rightarrow> True
      | Some (JObj kvs) \<Rightarrow> True)"

definition isArray :: "jsval \<Rightarrow> bool" where
  "isArray v = (case v of Some (JArr xs) \<Rightarrow> True | _ \<Rightarrow> False)"

definition getProp :: "jsval \<Rightarrow> string \<Rightarrow> js_error + jsval" where
  "getProp v k =
     (case v of
        None \<Rightarrow> Inl TypeError
      | Some JNull \<Rightarrow> Inl TypeError
      | Some (JObj kvs) \<Rightarrow> Inr (map_of (rev kvs) k)
      | Some other \<Rightarrow> Inr None)"

text \<open>Reading a property of a value that is not \<open>null\<close>.\<close>

definition field :: "json \<Rightarrow> string \<Rightarrow> jsval" where
  "field j k = (case j of JObj kvs \<Rightarrow> map_of (rev kvs) k | _ \<Rightarrow> None)"

text \<open>\<open>Array.prototype.join\<close> and \<open>String(v)\<close>.\<close>

fun joinWith :: "string \<Rightarrow> string list \<Rightarrow> string" where
  "joinWith sep [] = []"
| "joinWith sep [x] = x"
| "joinWith sep (x # y # ys) = x @ sep @ joinWith sep (y # ys)"

fun toString :: "json \<Rightarrow> string" where
  "toString JNull = ''null''"
| "toString (JBool b) = (if b then ''true'' else ''false'')"
| "toString (JNum n) = shown n"
| "toString (JStr s) = s"
| "toString (JArr xs) = joinWith '','' (map (\<lambda>x. if x = JNull then [] else toString x) xs)"
| "toString (JObj kvs) = ''[object Object]''"

text \<open>\<open>xs.join('')\<close>: \<open>null\<close> and \<open>undefined\<close> elements count as empty strings.\<close>

definition joinEmpty :: "jsval list \<Rightarrow> string" where
  "joinEmpty vs =
     concat (map (\<lambda>v. case v of None \<Rightarrow> [] | Some JNull \<Rightarrow> [] | Some j \<Rightarrow> toString j) vs)"

text \<open>\<open>JSON.stringify\<close> of a value without \<open>undefined\<close> in it; a number that is not finite
  is written \<open>null\<close>.\<close>

definition hexChar :: "nat \<Rightarrow> char" where
  "hexChar n = (if n < 10 then char_of (48 + n) else char_of (87 + n))"

definition escapeChar :: "char \<Rightarrow> string" where
  "escapeChar c =
     (if c = CHR 0x22 then [CHR 0x5C, CHR 0x22]
      else if c = CHR 0x5C then [CHR 0x5C, CHR 0x5C]
      else if c = CHR 0x08 then [CHR 0x5C, CHR ''b'']
      else if c = CHR 0x0C then [CHR 0x5C, CHR ''f'']
      else if c = CHR 0x0A then [CHR 0x5C, CHR ''n'']
      else if c = CHR 0x0D then [CHR 0x5C, CHR ''r'']
      else if c = CHR 0x09 then [CHR 0x5C, CHR ''t'']
      else if (of_char c :: nat) < 32 then
        [CHR 0x5C, CHR ''u'', CHR ''0'', CHR ''0'',
         hexChar (of_char c div 16), hexChar (of_char c mod 16)]
      else [c])"

definition quote :: "string \<Rightarrow> string" where
  "quote s = CHR 0x22 # concat (map escapeChar s) @ [CHR 0x22]"

fun stringify :: "json \<Rightarrow> string" where
  "stringify JNull = ''null''"
| "stringify (JBool b) = (if b then ''true'' else ''false'')"
| "stringify (JNum n) = (if is_finite n then shown n else ''null'')"
| "stringify (JStr s) = quote s"
| "stringify (JArr xs) = ''['' @ joinWith '','' (map stringify xs) @ '']''"
| "stringify (JObj kvs) =
     ''{'' @ joinWith '','' (map (\<lambda>(k, v). quote k @ '':'' @ stringify v) kvs) @ ''}''"

text \<open>A character that \<open>JSON.stringify\<close> writes as it is.\<close>

definition plainChar :: "char \<Rightarrow> bool" where
  "plainChar c = (c \<noteq> CHR 0x22 \<and> c \<noteq> CHR 0x5C \<and> 32 \<le> (of_char c :: nat))"

section \<open>openai/chatGPT.ts: the completion client\<close>

text \<open>The entries of the request's \<open>input\<close>, the model name sent, and the request body
  (without the floating-point \<open>temperature\<close>).\<close>

datatype wire_message = WireMessage (wire_role: role) (wire_content: string)

definition formatInput :: "message list \<Rightarrow> wire_message list" where
  "formatInput input =
     map (\<lambda>msg. WireMessage (role msg)
                   (case content msg of Text s \<Rightarrow> s | Parts j \<Rightarrow> stringify j)) input"

definition normalizeModel :: "string \<Rightarrow> string" where
  "normalizeModel model =
     (if model = ''o3-mini'' then ''gpt-4o-mini''
      else if model \<noteq> [] \<and> startsWith model ''o3'' then ''gpt-4o''
      else model)"

record request_body =
  input :: "wire_message list"
  model :: string
  max_tokens :: "int option"

definition requestBody :: "settings \<Rightarrow> message list \<Rightarrow> request_body" where
  "requestBody st msgs =
     \<lparr>input = formatInput msgs,
      model = normalizeModel (apiModel st),
      max_tokens = (if maxResponseTokens st \<noteq> 0 then Some (maxResponseTokens st) else None)\<rparr>"

text \<open>\<open>content.filter(item => item.type === "output_text").map(item => item.text)\<close>, the
  callbacks run in order and the first throw ends the call.\<close>

fun filterOutputText :: "json list \<Rightarrow> js_error + json list" where
  "filterOutputText [] = Inr []"
| "filterOutputText (item # items) =
     (case getProp (Some item) ''type'' of
        Inl e \<Rightarrow> Inl e
      | Inr ty \<Rightarrow>
          (case filterOutputText items of
             Inl e \<Rightarrow> Inl e
           | Inr rest \<Rightarrow> Inr (if ty = Some (JStr ''output_text'') then item # rest else rest)))"

fun mapText :: "json list \<Rightarrow> js_error + jsval list" where
  "mapText [] = Inr []"
| "mapText (item # items) =
     (case getProp (Some item) ''text'' of
        Inl e \<Rightarrow> Inl e
      | Inr t \<Rightarrow> (case mapText items of Inl e \<Rightarrow> Inl e | Inr ts \<Rightarrow> Inr (t # ts)))"

definition outputTexts :: "json list \<Rightarrow> js_error + jsval list" where
  "outputTexts items =
     (case filterOutputText items of Inl e \<Rightarrow> Inl e | Inr kept \<Rightarrow> mapText kept)"

text \<open>The statements of the \<open>try\<close> block after \<open>JSON.parse\<close>, on the parsed response. A
  truthy value that is not an array has no \<open>filter\<close> to call: a \<open>TypeError\<close>.\<close>

definition parseResponse :: "json \<Rightarrow> js_error + jsval" where
  "parseResponse res =
     (if truthy (Some res) \<and> isArray (field res ''content'') then
        (case field res ''content'' of
           Some (JArr items) \<Rightarrow>
             (case outputTexts items of
                Inl e \<Rightarrow> Inl e
              | Inr textOutputs \<Rightarrow> Inr (Some (JStr (joinEmpty textOutputs))))
         | _ \<Rightarrow> Inl TypeError)
      else
        let fallback = Inr (if res = JNull then None else field res ''output_text'') in
        if truthy (Some res) \<and> truthy (field res ''output'') then
          let firstMessage =
                (case field res ''output'' of
                   Some (JArr []) \<Rightarrow> None
                 | Some (JArr (m # ms)) \<Rightarrow> Some m
                 | _ \<Rightarrow> Some (JBool False))
          in case firstMessage of
               Some m \<Rightarrow>
                 if truthy (Some m) \<and> truthy (field m ''content'') then
                   (case field m ''content'' of
                      Some (JArr items) \<Rightarrow>
                        (case outputTexts items of
                           Inl e \<Rightarrow> Inl e
                         | Inr texts \<Rightarrow>
                             let textContent = joinEmpty texts
                             in Inr (if textContent \<noteq> [] then Some (JStr textContent) else None))
                    | _ \<Rightarrow> Inl TypeError)
                 else fallback
             | None \<Rightarrow> fallback
        else fallback)"

text \<open>What \<open>request\<close> resolves to: it rejects, or it gives a body that \<open>JSON.parse\<close> rejects
  or parses. \<open>completionResult\<close> is what \<open>getChatGPTCompletion\<close> then returns or throws:
  its \<open>catch\<close> logs and throws the error again.\<close>

datatype response = RequestFailed int | Unparsable | Parsed json

definition completionResult :: "response \<Rightarrow> js_error + jsval" where
  "completionResult r =
     (case r of
        RequestFailed code \<Rightarrow> Inl (RequestError code)
      | Unparsable \<Rightarrow> Inl SyntaxError
      | Parsed res \<Rightarrow> parseResponse res)"



section \<open>noteGenerator.ts: generating a note\<close>

text \<open>
  The canvas as far as \<open>generateNote\<close> uses it: its nodes (an identifier, the text, the
  colour and the chat role), its labelled edges and its selection (\<open>None\<close> when the host
  has none). Sizes and positions are left out. What the user is told is a \<open>notice\<close>.
\<close>

record canvas_item =
  note_id :: nat
  note_text :: json
  note_color :: "string option"
  note_role :: "string option"

record canvas =
  nodes :: "canvas_item list"
  edges :: "(nat \<times> nat \<times> string) list"
  selection :: "nat list option"

datatype notice =
    MissingApiKey
  | Sending nat int
  | EmptyResponse
  | ErrorCalling js_error

definition assistantColor :: string where
  "assistantColor = ''6''"

text \<open>
  Modelled from the spec: \<open>createNode\<close> and \<open>addEdge\<close> of obsidian/canvas-patches, which is
  not among the sources. Section 6: node create (attached to a reference node with initial
  text, size and role) and edge create (directed, labelled). The new node gets an
  identifier no node of the canvas has.
\<close>

definition freshId :: "canvas \<Rightarrow> nat" where
  "freshId c = Suc (fold max (map note_id (nodes c)) 0)"

definition createNode ::
  "canvas \<Rightarrow> nat \<Rightarrow> string \<Rightarrow> string option \<Rightarrow> string option \<Rightarrow> nat \<times> canvas" where
  "createNode c parent text color chatRole =
     (let i = freshId c
      in (i, c\<lparr>nodes := nodes c @
                  [\<lparr>note_id = i, note_text = JStr text, note_color = color,
                    note_role = chatRole\<rparr>]\<rparr>))"

definition addEdge :: "canvas \<Rightarrow> nat \<Rightarrow> nat \<Rightarrow> string \<Rightarrow> canvas" where
  "addEdge c fromNode toNode label = c\<lparr>edges := edges c @ [(fromNode, toNode, label)]\<rparr>"

text \<open>The host's \<open>removeNode\<close>, \<open>setText\<close> and \<open>selectOnly\<close>.\<close>

definition removeNode :: "canvas \<Rightarrow> nat \<Rightarrow> canvas" where
  "removeNode c i = c\<lparr>nodes := filter (\<lambda>n. note_id n \<noteq> i) (nodes c)\<rparr>"

definition setText :: "canvas \<Rightarrow> nat \<Rightarrow> json \<Rightarrow> canvas" where
  "setText c i v =
     c\<lparr>nodes := map (\<lambda>n. if note_id n = i then n\<lparr>note_text := v\<rparr> else n) (nodes c)\<rparr>"

definition selectOnly :: "canvas \<Rightarrow> nat \<Rightarrow> canvas" where
  "selectOnly c i = c\<lparr>selection := Some [i]\<rparr>"

text \<open>
  The \<open>try\<close> statement of \<open>generateNote\<close>, from the reply of the completion client on:
  \<open>c\<close> is the canvas when the call returns, \<open>node\<close> the source node, \<open>created\<close> the
  placeholder.
\<close>

definition integrateReply ::
  "canvas \<Rightarrow> nat \<Rightarrow> nat \<Rightarrow> string \<Rightarrow> notice \<Rightarrow> js_error + jsval \<Rightarrow> canvas \<times> notice list" where
  "integrateReply c node created label sending reply =
     (case reply of
        Inl err \<Rightarrow> (removeNode c created, [sending, ErrorCalling err])
      | Inr None \<Rightarrow> (removeNode c created, [sending, EmptyResponse])
      | Inr (Some JNull) \<Rightarrow> (removeNode c created, [sending, EmptyResponse])
      | Inr (Some generated) \<Rightarrow>
          let c1 = setText c created generated;
              c2 = addEdge c1 node created label;
              selectedNoteId = (case selection c2 of Some [x] \<Rightarrow> Some x | _ \<Rightarrow> None)
          in (if selectedNoteId = Some node \<or> selectedNoteId = None then selectOnly c2 created
              else c2,
              [sending]))"

text \<open>
  \<open>generateNote\<close>. \<open>view\<close> gives the selected node with its ancestors, as \<open>buildMessages\<close>
  walks it; \<open>during\<close> is what happens to the canvas while the request is pending; \<open>resp\<close> is
  what the request resolves to.
\<close>

definition generateNote ::
  "settings \<Rightarrow> encoding \<Rightarrow> (nat \<Rightarrow> canvas_node) \<Rightarrow> string \<Rightarrow> string option \<Rightarrow> string option \<Rightarrow>
   (canvas \<Rightarrow> canvas) \<Rightarrow> response \<Rightarrow> canvas option \<Rightarrow> canvas option \<times> notice list" where
  "generateNote st enc view actionName actionPrompt explicitLabel during resp activeCanvas =
     (if apiKey st = [] then (activeCanvas, [MissingApiKey])
      else
        case activeCanvas of
          None \<Rightarrow> (None, [])
        | Some c \<Rightarrow>
            (case selection c of
               Some [node] \<Rightarrow>
                 (case buildMessages st enc (view node) actionPrompt of
                    (msgs, tokens) \<Rightarrow>
                      if msgs = [] then (Some c, [])
                      else
                        case createNode c node (''Calling AI ('' @ apiModel st @ '')...'')
                               (Some assistantColor) (Some ''assistant'') of
                          (created, c1) \<Rightarrow>
                            let label = (case explicitLabel of
                                           Some l \<Rightarrow> if l \<noteq> [] then l else actionName
                                         | None \<Rightarrow> actionName)
                            in case integrateReply (during c1) node created label
                                      (Sending (length msgs) tokens) (completionResult resp) of
                                 (c', ns) \<Rightarrow> (Some c', ns))
             | _ \<Rightarrow> (Some c, [])))"

section \<open>Concrete settings and a concrete tokenizer\<close>

text \<open>A tokenizer with one token per character, and settings with a given default system
  prompt, input limit and depth limit.\<close>

definition charTokens :: encoding where
  "charTokens = \<lparr>encode = map of_char, decode = map char_of\<rparr>"

definition mkSettings :: "string \<Rightarrow> int \<Rightarrow> int \<Rightarrow> settings" where
  "mkSettings sp limit depth =
     \<lparr>apiKey = ''sk'', apiUrl = [], apiModel = ''gpt-4o'', systemPrompt = sp, debug = False,
      maxInputTokens = limit, maxResponseTokens = 0, maxDepth = depth\<rparr>"

definition textNode :: "string \<Rightarrow> canvas_node list \<Rightarrow> canvas_node" where
  "textNode t ps = CanvasNode (length ps) (Some t) None ps"

text \<open>The chains and the graph of the examples.\<close>

definition chainABC :: canvas_node where
  "chainABC = textNode ''AAAAA'' [textNode ''BBBBB'' [textNode ''CCCCC'' []]]"

definition chainMixed :: canvas_node where
  "chainMixed =
     CanvasNode 3 (Some ''hi '') (Some ''assistant'')
       [CanvasNode 2 (Some ''data:image/png;base64,AA'') None
         [CanvasNode 1 (Some '' SYSTEM PROMPT be brief'') None
           [CanvasNode 0 (Some ''root'') None
             [CanvasNode 0 (Some ''SYSTEM PROMPT two'') None []]]]]"


definition forkSkipped :: canvas_node where
  "forkSkipped =
     CanvasNode 3 (Some ''  '') None
       [CanvasNode 1 None None [],
        CanvasNode 2 (Some ''SYSTEM PROMPT x'') None [textNode ''beyond the depth limit'' []]]"



definition flatReply :: json where
  "flatReply = JObj [(''id'', JStr ''resp_2''), (''output_text'', JStr ''flat'')]"

definition oneNote :: canvas where
  "oneNote =
     \<lparr>nodes = [\<lparr>note_id = 4, note_text = JStr ''hello'', note_color = None, note_role = None\<rparr>],
      edges = [], selection = Some [4]\<rparr>"

definition helloView :: "nat \<Rightarrow> canvas_node" where
  "helloView i = CanvasNode i (Some ''hello'') None []"

definition deselect :: "canvas \<Rightarrow> canvas" where
  "deselect c = c\<lparr>selection := Some []\<rparr>"

definition selectOther :: "canvas \<Rightarrow> canvas" where
  "selectOther c = c\<lparr>selection := Some [9]\<rparr>"

definition unchanged :: "canvas \<Rightarrow> canvas" where
  "unchanged c = c"

section \<open>Properties of the conversation builder\<close>

subsection \<open>Strings\<close>

lemma startsWith_prefix: "startsWith s p \<longleftrightarrow> prefix p s"
  unfolding startsWith_def
  by (metis append_eq_conv_conj prefix_def take_is_prefix)

lemma dropWhile_rev_keeps:
  assumes "p \<noteq> []" "\<not> P (last p)"
  shows "\<exists>x. rev (dropWhile P (rev (p @ r))) = p @ x"
proof -
  have "dropWhile P (rev r @ rev p) =
        (if \<forall>c\<in>set (rev r). P c then dropWhile P (rev p) else dropWhile P (rev r) @ rev p)"
    by (simp add: dropWhile_append)
  moreover have "dropWhile P (rev p) = rev p"
    using assms by (cases "rev p") (auto simp: last_rev hd_rev dest: sym)
  ultimately show ?thesis
    by (cases "\<forall>c\<in>set (rev r). P c") auto
qed

lemma prefix_trim:
  assumes "prefix p s" "p \<noteq> []" "\<not> is_space (hd p)" "\<not> is_space (last p)"
  shows "prefix p (trim s)"
proof -
  obtain r where s: "s = p @ r" using assms(1) by (auto simp: prefix_def)
  have "dropWhile is_space s = s" using assms s by (cases p) auto
  then show ?thesis
    using dropWhile_rev_keeps[of p is_space r] assms s by (auto simp: trim_def prefix_def)
qed

text \<open>A content that starts with the image sentinel still does after \<open>trim\<close>.\<close>

lemma sentinel_survives_trim:
  "startsWith t ''data:image'' \<Longrightarrow> startsWith (trim t) ''data:image''"
  unfolding startsWith_prefix
  by (rule prefix_trim) (simp_all add: is_space_def)

subsection \<open>The walk along a chain\<close>

lemma walk_chain: "is_chain n \<Longrightarrow> visitNodeAndAncestors v n d s = walk_list v (path n) d s"
proof (induction n arbitrary: d s rule: is_chain.induct)
  case (1 i t r)
  then show ?case by (auto split: prod.splits bool.splits)
next
  case (2 i t r p)
  then show ?case by (auto split: prod.splits bool.splits)
next
  case (3 i t r p q ps)
  then show ?case by simp
qed

lemma slice0_nonneg: "0 \<le> e \<Longrightarrow> slice0 xs e = take (nat e) xs"
  by (auto simp: slice0_def Let_def min_def)

lemma slice0_length: "slice0 xs (int k) = take k xs"
  by (simp add: slice0_nonneg)

lemma visit_gate:
  "maxDepth st \<noteq> 0 \<Longrightarrow> int d > maxDepth st \<Longrightarrow> visit st enc n d s = (False, s)"
  by (simp add: visit_def)

lemma visit_cases:
  assumes "maxDepth st = 0 \<or> int d \<le> maxDepth st"
  shows "visit st enc n d s =
     (if is_image_node n then (True, s\<lparr>messages := imageMessage (nodeText n) # messages s\<rparr>)
      else if is_text_node n then
        (if tokenCount s + nodeTokens enc n > getTokenLimit st then
           (False, \<lparr>messages = truncatedMessage st enc (tokenCount s) n # messages s,
                    tokenCount = tokenCount s + int (length (keptTokens st enc (tokenCount s) n))\<rparr>)
         else
           (True, \<lparr>messages = \<lparr>content = Text (nodeText n), role = nodeRole n\<rparr> # messages s,
                   tokenCount = tokenCount s + nodeTokens enc n\<rparr>))
      else (True, s))"
  using assms
  unfolding visit_def is_image_node_def is_text_node_def nodeTokens_def truncatedMessage_def
    truncatedText_def keptTokens_def nodeText_def
  by (auto simp: Let_def)

lemma walk_depth:
  "walk_list (visit st enc) ns d s =
   walk_list (visit st enc)
     (if maxDepth st = 0 then ns else take (nat (maxDepth st + 1 - int d)) ns) d s"
proof (induction ns arbitrary: d s)
  case Nil
  then show ?case by simp
next
  case (Cons n ns)
  show ?case
  proof (cases "maxDepth st \<noteq> 0 \<and> int d > maxDepth st")
    case True
    then show ?thesis by (simp add: visit_gate)
  next
    case False
    show ?thesis
    proof (cases "maxDepth st = 0")
      case True
      then show ?thesis by simp
    next
      case nz: False
      then have le: "int d \<le> maxDepth st" using False by simp
      then have eq: "nat (maxDepth st + 1 - int d) = Suc (nat (maxDepth st + 1 - int (Suc d)))"
        by simp
      show ?thesis
        using Cons.IH[of "Suc d"] nz
        by (simp only: eq take_Suc_Cons walk_list.simps if_False split: prod.splits bool.splits)
    qed
  qed
qed

lemma nodeTokens_nonneg: "0 \<le> nodeTokens enc n"
  by (simp add: nodeTokens_def)

lemma chainTokens_nonneg: "0 \<le> chainTokens enc ns"
  unfolding chainTokens_def by (induction ns) (auto simp: nodeTokens_nonneg)

lemma chainTokens_Cons [simp]: "chainTokens enc (n # ns) = nodeTokens enc n + chainTokens enc ns"
  by (simp add: chainTokens_def)

lemma chainTokens_Nil [simp]: "chainTokens enc [] = 0"
  by (simp add: chainTokens_def)

lemma chainTokens_append [simp]:
  "chainTokens enc (xs @ ys) = chainTokens enc xs + chainTokens enc ys"
  by (simp add: chainTokens_def)

lemma chainTokens_no_text: "\<forall>y\<in>set ns. \<not> is_text_node y \<Longrightarrow> chainTokens enc ns = 0"
  by (induction ns) (auto simp: nodeTokens_def)

lemma map_filter_snoc:
  "List.map_filter f (xs @ [x]) = List.map_filter f xs @ (case f x of None \<Rightarrow> [] | Some y \<Rightarrow> [y])"
  by (simp add: List.map_filter_def split: option.splits)

lemma text_not_image: "is_text_node n \<Longrightarrow> \<not> is_image_node n"
  by (auto simp: is_text_node_def is_image_node_def)

lemma wholeMessage_text:
  "is_text_node n \<Longrightarrow> wholeMessage n = Some \<lparr>content = Text (nodeText n), role = nodeRole n\<rparr>"
  by (simp add: wholeMessage_def text_not_image)

lemma wholeMessage_image: "is_image_node n \<Longrightarrow> wholeMessage n = Some (imageMessage (nodeText n))"
  by (simp add: wholeMessage_def)

lemma wholeMessage_none: "\<not> is_text_node n \<Longrightarrow> \<not> is_image_node n \<Longrightarrow> wholeMessage n = None"
  by (simp add: wholeMessage_def)

lemma walk_fits:
  assumes "maxDepth st = 0 \<or> int d + int (length ns) \<le> maxDepth st + 1"
      and "(\<forall>y\<in>set ns. \<not> is_text_node y) \<or> tokenCount s + chainTokens enc ns \<le> getTokenLimit st"
  shows "walk_list (visit st enc) ns d s =
           \<lparr>messages = List.map_filter wholeMessage (rev ns) @ messages s,
            tokenCount = tokenCount s + chainTokens enc ns\<rparr>"
  using assms
proof (induction ns arbitrary: d s)
  case Nil
  then show ?case by (simp add: List.map_filter_def)
next
  case (Cons n ns)
  have gate: "maxDepth st = 0 \<or> int d \<le> maxDepth st" using Cons.prems(1) by auto
  have gate': "maxDepth st = 0 \<or> int (Suc d) + int (length ns) \<le> maxDepth st + 1"
    using Cons.prems(1) by auto
  show ?case
  proof (cases "is_text_node n")
    case True
    then have tot: "tokenCount s + (nodeTokens enc n + chainTokens enc ns) \<le> getTokenLimit st"
      using Cons.prems(2) by auto
    then have fit: "\<not> tokenCount s + nodeTokens enc n > getTokenLimit st"
      using chainTokens_nonneg[of enc ns] by linarith
    have img: "\<not> is_image_node n" using True by (auto simp: is_text_node_def is_image_node_def)
    let ?s' = "\<lparr>messages = \<lparr>content = Text (nodeText n), role = nodeRole n\<rparr> # messages s,
                   tokenCount = tokenCount s + nodeTokens enc n\<rparr>"
    have v: "visit st enc n d s = (True, ?s')"
      using visit_cases[OF gate, of enc n s] True img fit by simp
    have "walk_list (visit st enc) ns (Suc d) ?s' =
          \<lparr>messages = List.map_filter wholeMessage (rev ns) @ messages ?s',
           tokenCount = tokenCount ?s' + chainTokens enc ns\<rparr>"
      by (rule Cons.IH[OF gate']) (use tot in simp)
    then show ?thesis
      using v True by (simp add: map_filter_snoc wholeMessage_text add.assoc)
  next
    case False
    have rest: "(\<forall>y\<in>set ns. \<not> is_text_node y) \<or> tokenCount s + chainTokens enc ns \<le> getTokenLimit st"
      using Cons.prems(2) False by (auto simp: nodeTokens_def)
    show ?thesis
    proof (cases "is_image_node n")
      case True
      let ?s' = "s\<lparr>messages := imageMessage (nodeText n) # messages s\<rparr>"
      have v: "visit st enc n d s = (True, ?s')"
        using visit_cases[OF gate, of enc n s] True by simp
      have "walk_list (visit st enc) ns (Suc d) ?s' =
          \<lparr>messages = List.map_filter wholeMessage (rev ns) @ messages ?s',
           tokenCount = tokenCount ?s' + chainTokens enc ns\<rparr>"
        by (rule Cons.IH[OF gate']) (use rest in simp)
      then show ?thesis
        using v True False by (simp add: map_filter_snoc wholeMessage_image nodeTokens_def)
    next
      case img: False
      have v: "visit st enc n d s = (True, s)"
        using visit_cases[OF gate, of enc n s] False img by simp
      show ?thesis
        using v Cons.IH[OF gate' rest] False img
        by (simp add: map_filter_snoc wholeMessage_none nodeTokens_def)
    qed
  qed
qed

lemma walk_overflow:
  assumes "maxDepth st = 0 \<or> int d + int (length pre) \<le> maxDepth st"
      and "(\<forall>y\<in>set pre. \<not> is_text_node y) \<or> tokenCount s + chainTokens enc pre \<le> getTokenLimit st"
      and "is_text_node x"
      and "tokenCount s + chainTokens enc pre + nodeTokens enc x > getTokenLimit st"
  shows "walk_list (visit st enc) (pre @ x # post) d s =
           \<lparr>messages = truncatedMessage st enc (tokenCount s + chainTokens enc pre) x #
                         List.map_filter wholeMessage (rev pre) @ messages s,
            tokenCount = tokenCount s + chainTokens enc pre +
               int (length (keptTokens st enc (tokenCount s + chainTokens enc pre) x))\<rparr>"
  using assms
proof (induction pre arbitrary: d s)
  case Nil
  have gate: "maxDepth st = 0 \<or> int d \<le> maxDepth st" using Nil.prems(1) by auto
  have img: "\<not> is_image_node x" using Nil.prems(3) by (auto simp: is_text_node_def is_image_node_def)
  show ?case
    using visit_cases[OF gate, of enc x s] Nil.prems(3,4) img
    by (simp add: List.map_filter_def)
next
  case (Cons n pre)
  have gate: "maxDepth st = 0 \<or> int d \<le> maxDepth st" using Cons.prems(1) by auto
  have gate': "maxDepth st = 0 \<or> int (Suc d) + int (length pre) \<le> maxDepth st"
    using Cons.prems(1) by auto
  show ?case
  proof (cases "is_text_node n")
    case True
    then have tot: "tokenCount s + (nodeTokens enc n + chainTokens enc pre) \<le> getTokenLimit st"
      using Cons.prems(2) by auto
    then have fit: "\<not> tokenCount s + nodeTokens enc n > getTokenLimit st"
      using chainTokens_nonneg[of enc pre] by linarith
    have img: "\<not> is_image_node n" using True by (auto simp: is_text_node_def is_image_node_def)
    let ?s' = "\<lparr>messages = \<lparr>content = Text (nodeText n), role = nodeRole n\<rparr> # messages s,
                   tokenCount = tokenCount s + nodeTokens enc n\<rparr>"
    have v: "visit st enc n d s = (True, ?s')"
      using visit_cases[OF gate, of enc n s] True img fit by simp
    have "walk_list (visit st enc) (pre @ x # post) (Suc d) ?s' =
          \<lparr>messages = truncatedMessage st enc (tokenCount ?s' + chainTokens enc pre) x #
                         List.map_filter wholeMessage (rev pre) @ messages ?s',
            tokenCount = tokenCount ?s' + chainTokens enc pre +
               int (length (keptTokens st enc (tokenCount ?s' + chainTokens enc pre) x))\<rparr>"
      by (rule Cons.IH[OF gate' _ Cons.prems(3)]) (use tot Cons.prems(4) in \<open>simp_all add: add.assoc\<close>)
    then show ?thesis
      using v True by (simp add: map_filter_snoc wholeMessage_text add.assoc)
  next
    case False
    have rest: "(\<forall>y\<in>set pre. \<not> is_text_node y) \<or> tokenCount s + chainTokens enc pre \<le> getTokenLimit st"
      using Cons.prems(2) False by (auto simp: nodeTokens_def)
    have ov: "tokenCount s + chainTokens enc pre + nodeTokens enc x > getTokenLimit st"
      using Cons.prems(4) False by (simp add: nodeTokens_def)
    show ?thesis
    proof (cases "is_image_node n")
      case True
      let ?s' = "s\<lparr>messages := imageMessage (nodeText n) # messages s\<rparr>"
      have v: "visit st enc n d s = (True, ?s')"
        using visit_cases[OF gate, of enc n s] True by simp
      have "walk_list (visit st enc) (pre @ x # post) (Suc d) ?s' =
          \<lparr>messages = truncatedMessage st enc (tokenCount ?s' + chainTokens enc pre) x #
                         List.map_filter wholeMessage (rev pre) @ messages ?s',
            tokenCount = tokenCount ?s' + chainTokens enc pre +
               int (length (keptTokens st enc (tokenCount ?s' + chainTokens enc pre) x))\<rparr>"
        by (rule Cons.IH[OF gate' _ Cons.prems(3)]) (use rest ov in simp_all)
      then show ?thesis
        using v True False by (simp add: map_filter_snoc wholeMessage_image nodeTokens_def)
    next
      case img: False
      have v: "visit st enc n d s = (True, s)"
        using visit_cases[OF gate, of enc n s] False img by simp
      show ?thesis
        using v Cons.IH[OF gate' rest Cons.prems(3) ov] False img
        by (simp add: map_filter_snoc wholeMessage_none nodeTokens_def)
    qed
  qed
qed

lemma first_overflow_exists:
  assumes "tc + chainTokens enc ns > limit" "\<exists>y\<in>set ns. is_text_node y"
  shows "\<exists>pre x post. ns = pre @ x # post \<and> is_text_node x \<and>
           ((\<forall>y\<in>set pre. \<not> is_text_node y) \<or> tc + chainTokens enc pre \<le> limit) \<and>
           tc + chainTokens enc pre + nodeTokens enc x > limit"
  using assms
proof (induction ns arbitrary: tc)
  case Nil
  then show ?case by simp
next
  case (Cons n ns)
  show ?case
  proof (cases "is_text_node n \<and> tc + nodeTokens enc n > limit")
    case True
    then have "n # ns = [] @ n # ns \<and> is_text_node n \<and>
           ((\<forall>y\<in>set []. \<not> is_text_node y) \<or> tc + chainTokens enc [] \<le> limit) \<and>
           tc + chainTokens enc [] + nodeTokens enc n > limit" by simp
    then show ?thesis by blast
  next
    case False
    have step: "(tc + nodeTokens enc n) + chainTokens enc ns > limit"
      using Cons.prems(1) by (simp add: add.assoc)
    have ex: "\<exists>y\<in>set ns. is_text_node y"
    proof (rule ccontr)
      assume "\<not> ?thesis"
      then have z: "chainTokens enc ns = 0" by (simp add: chainTokens_no_text)
      then have "is_text_node n" using Cons.prems(2) \<open>\<not> (\<exists>y\<in>set ns. is_text_node y)\<close> by auto
      then show False using False step z by simp
    qed
    from Cons.IH[OF step ex] obtain pre x post where
      sp: "ns = pre @ x # post" "is_text_node x"
          "(\<forall>y\<in>set pre. \<not> is_text_node y) \<or> tc + nodeTokens enc n + chainTokens enc pre \<le> limit"
          "tc + nodeTokens enc n + chainTokens enc pre + nodeTokens enc x > limit"
      by blast
    have fit: "(\<forall>y\<in>set (n # pre). \<not> is_text_node y) \<or> tc + chainTokens enc (n # pre) \<le> limit"
    proof (cases "is_text_node n")
      case True
      then have le: "tc + nodeTokens enc n \<le> limit" using False by simp
      show ?thesis
      proof (cases "\<forall>y\<in>set pre. \<not> is_text_node y")
        case True
        then show ?thesis using le by (simp add: chainTokens_no_text)
      next
        case False
        then show ?thesis using sp(3) by (auto simp: add.assoc)
      qed
    next
      case False
      then show ?thesis using sp(3) by (auto simp: nodeTokens_def)
    qed
    have "n # ns = (n # pre) @ x # post" using sp(1) by simp
    moreover have "tc + chainTokens enc (n # pre) + nodeTokens enc x > limit"
      using sp(4) by (simp add: add.assoc)
    ultimately show ?thesis using sp(2) fit by blast
  qed
qed

subsection \<open>The system prompt resolver and the walk invariant\<close>

lemma trim_Nil [simp]: "trim [] = []"
  by (simp add: trim_def)

lemma not_marked_Nil [simp]: "\<not> isSystemPromptNode []"
  by (simp add: isSystemPromptNode_def startsWith_def)

lemma promptVisitor_cases:
  "promptVisitor n d f = (if is_marked_node n then (False, node_text n) else (True, f))"
  by (auto simp: promptVisitor_def is_marked_node_def split: option.splits)

lemma walk_prompt:
  "walk_list promptVisitor ns d f =
     (case find is_marked_node ns of Some m \<Rightarrow> node_text m | None \<Rightarrow> f)"
  by (induction ns arbitrary: d f) (auto simp: promptVisitor_cases)

lemma find_marked_text:
  "find is_marked_node ns = Some m \<Longrightarrow> node_text m = Some (rawText m) \<and> rawText m \<noteq> []"
  by (auto simp: find_Some_iff is_marked_node_def rawText_def split: option.splits)

lemma getSystemPrompt_chain:
  assumes "is_chain n"
  shows "getSystemPrompt st n =
           (case find is_marked_node (path n) of Some m \<Rightarrow> rawText m | None \<Rightarrow> systemPrompt st)"
  using find_marked_text[of "path n"]
  by (auto simp: getSystemPrompt_def walk_chain[OF assms] walk_prompt split: option.splits)

lemma fold_invariant:
  assumes "\<And>p x. p \<in> set ps \<Longrightarrow> P x \<Longrightarrow> P (f p x)" "P s"
  shows "P (fold f ps s)"
  using assms by (induction ps arbitrary: s) auto

lemma walk_invariant:
  assumes "\<And>m d s. P s \<Longrightarrow> P (snd (v m d s))" "P s"
  shows "P (visitNodeAndAncestors v n d s)"
  using assms
proof (induction v n d s rule: visitNodeAndAncestors.induct)
  case (1 visitor i t r ps depth s)
  obtain b s' where vs: "visitor (CanvasNode i t r ps) depth s = (b, s')"
    by (cases "visitor (CanvasNode i t r ps) depth s")
  have Ps': "P s'"
    using "1.prems"(1)[OF "1.prems"(2), of "CanvasNode i t r ps" depth] vs by simp
  show ?case
  proof (cases b)
    case True
    have "P (fold (\<lambda>p. visitNodeAndAncestors visitor p (Suc depth)) ps s')"
    proof (rule fold_invariant[where P = P])
      fix p x assume "p \<in> set ps" "P x"
      then show "P (visitNodeAndAncestors visitor p (Suc depth) x)"
        using "1.IH"[OF vs[symmetric] _ _ "1.prems"(1), of p x] True by simp
    qed (rule Ps')
    then show ?thesis using vs True by simp
  next
    case False
    then show ?thesis using vs Ps' by simp
  qed
qed

lemma trim_prefix_dropWhile: "prefix (trim s) (dropWhile is_space s)"
proof -
  let ?a = "dropWhile is_space s"
  have "rev ?a = takeWhile is_space (rev ?a) @ dropWhile is_space (rev ?a)" by simp
  then have "?a = rev (dropWhile is_space (rev ?a)) @ rev (takeWhile is_space (rev ?a))"
    by (metis rev_append rev_rev_ident)
  then show ?thesis unfolding trim_def prefix_def by blast
qed

lemma dropWhile_take_prefix: "prefix (dropWhile P (take k xs)) (dropWhile P xs)"
proof (induction xs arbitrary: k)
  case Nil
  then show ?case by simp
next
  case (Cons x xs)
  then show ?case by (cases k) (auto simp: take_is_prefix)
qed

lemma trim_idem: "trim (trim s) = trim s"
proof -
  let ?a = "dropWhile is_space s"
  let ?b = "trim s"
  have rb: "rev ?b = dropWhile is_space (rev ?a)" by (simp add: trim_def)
  have 1: "dropWhile is_space (rev ?b) = rev ?b" by (simp add: rb)
  have 2: "dropWhile is_space ?b = ?b"
  proof (cases "?b = []")
    case True
    then show ?thesis by simp
  next
    case False
    obtain r where a: "?a = ?b @ r" using trim_prefix_dropWhile[of s] by (auto simp: prefix_def)
    then have "hd ?b = hd ?a" using False by (metis hd_append2)
    moreover have "?a \<noteq> []" using a False by auto
    ultimately have "\<not> is_space (hd ?b)" by (metis hd_dropWhile)
    then show ?thesis using False by (simp add: dropWhile_eq_self_iff)
  qed
  show ?thesis
    unfolding trim_def[of "trim s"] by (simp add: 2 1)
qed

lemma marker_chars: "''SYSTEM PROMPT'' \<noteq> []" "\<not> is_space (last ''SYSTEM PROMPT'')"
  by (simp_all add: is_space_def)

lemma marked_take: "isSystemPromptNode (take k s) \<Longrightarrow> isSystemPromptNode s"
proof -
  assume "isSystemPromptNode (take k s)"
  then have "prefix ''SYSTEM PROMPT'' (trim (take k s))"
    by (simp add: isSystemPromptNode_def startsWith_prefix)
  then have "prefix ''SYSTEM PROMPT'' (dropWhile is_space s)"
    using trim_prefix_dropWhile[of "take k s"] dropWhile_take_prefix[of is_space k s]
    by (meson prefix_order.trans)
  then obtain r where a: "dropWhile is_space s = ''SYSTEM PROMPT'' @ r"
    by (auto simp: prefix_def)
  obtain x where "rev (dropWhile is_space (rev (''SYSTEM PROMPT'' @ r))) = ''SYSTEM PROMPT'' @ x"
    using dropWhile_rev_keeps[of "''SYSTEM PROMPT''" is_space r] marker_chars by blast
  then have "trim s = ''SYSTEM PROMPT'' @ x" by (simp add: trim_def a)
  then show ?thesis by (simp add: isSystemPromptNode_def startsWith_prefix)
qed

lemma marked_trim: "isSystemPromptNode (trim t) = isSystemPromptNode t"
  by (simp add: isSystemPromptNode_def trim_idem)

lemma marked_not_image:
  assumes "isSystemPromptNode t" shows "\<not> startsWith (trim t) ''data:image''"
proof
  assume "startsWith (trim t) ''data:image''"
  then obtain r where 1: "trim t = ''data:image'' @ r"
    by (auto simp: startsWith_prefix prefix_def)
  obtain r' where 2: "trim t = ''SYSTEM PROMPT'' @ r'"
    using assms by (auto simp: isSystemPromptNode_def startsWith_prefix prefix_def)
  show False using 1 2 by simp
qed

lemma unmarked_Cons:
  "unmarked_messages (m # ms) \<longleftrightarrow>
     role m \<noteq> System \<and> (\<forall>t. content m = Text t \<longrightarrow> \<not> isSystemPromptNode t) \<and> unmarked_messages ms"
  by (auto simp: unmarked_messages_def)

lemma visit_unmarked:
  assumes "unmarked_messages (messages s)"
  shows "unmarked_messages (messages (snd (visit st enc n d s)))"
proof (cases "maxDepth st \<noteq> 0 \<and> int d > maxDepth st")
  case True
  then show ?thesis using assms by (simp add: visit_gate)
next
  case False
  then have gate: "maxDepth st = 0 \<or> int d \<le> maxDepth st" by auto
  have tr: "is_text_node n \<Longrightarrow> \<not> isSystemPromptNode (slice0 (nodeText n) (int k))" for k
    using marked_take[of k "nodeText n"] by (auto simp: slice0_length is_text_node_def)
  have wh: "is_text_node n \<Longrightarrow> \<not> isSystemPromptNode (nodeText n)"
    by (simp add: is_text_node_def)
  show ?thesis
    unfolding visit_cases[OF gate]
    using assms tr wh
    by (simp add: unmarked_Cons truncatedMessage_def truncatedText_def imageMessage_def
        nodeRole_def)
qed

lemma walk_unmarked:
  "unmarked_messages (messages (visitNodeAndAncestors (visit st enc) n 0 \<lparr>messages = [], tokenCount = tc\<rparr>))"
proof (rule walk_invariant[where P = "\<lambda>s. unmarked_messages (messages s)"])
  show "unmarked_messages (messages (snd (visit st enc m d s)))"
    if "unmarked_messages (messages s)" for m d s
    using that by (rule visit_unmarked)
  show "unmarked_messages (messages \<lparr>messages = [], tokenCount = tc\<rparr>)"
    by (simp add: unmarked_messages_def)
qed

subsection \<open>The build on a chain\<close>

lemma walk_within_depth:
  "walk_list (visit st enc) ns 0 s = walk_list (visit st enc) (within_depth st ns) 0 s"
proof (cases "maxDepth st = 0")
  case True
  then show ?thesis by (simp add: within_depth_def)
next
  case False
  have "maxDepth st + 1 - int 0 = maxDepth st + 1" by simp
  then show ?thesis
    using False by (subst walk_depth) (simp add: within_depth_def)
qed

lemma buildMessages_chain:
  assumes "is_chain n"
  shows "buildMessages st enc n None =
     (let sp = getSystemPrompt st n;
          s = walk_list (visit st enc) (within_depth st (path n)) 0
                \<lparr>messages = [], tokenCount = systemCost enc sp\<rparr>
      in if messages s \<noteq> [] then (systemMessages sp @ messages s, tokenCount s) else ([], 0))"
proof -
  have "visitNodeAndAncestors (visit st enc) n 0 s =
        walk_list (visit st enc) (within_depth st (path n)) 0 s" for s
    using walk_chain[OF assms, of "visit st enc" 0 s] walk_within_depth[of st enc "path n" s]
    by simp
  then show ?thesis
    by (simp add: buildMessages_def Let_def systemCost_def systemMessages_def)
qed

lemma within_depth_length:
  assumes "within_depth st ns \<noteq> []"
  shows "maxDepth st = 0 \<or> int (length (within_depth st ns)) \<le> maxDepth st + 1"
proof (cases "maxDepth st = 0")
  case True
  then show ?thesis by simp
next
  case False
  then have eq: "within_depth st ns = take (nat (maxDepth st + 1)) ns"
    by (simp add: within_depth_def)
  have "length (take (nat (maxDepth st + 1)) ns) \<le> nat (maxDepth st + 1)" by simp
  moreover have "nat (maxDepth st + 1) \<noteq> 0" using assms eq by (cases "nat (maxDepth st + 1)") auto
  ultimately show ?thesis unfolding eq by linarith
qed

lemma within_depth_gate:
  assumes "within_depth st ns = pre @ x # post"
  shows "maxDepth st = 0 \<or> int (length pre) \<le> maxDepth st"
proof -
  have "within_depth st ns \<noteq> []" using assms by simp
  from within_depth_length[OF this] show ?thesis unfolding assms by auto
qed

lemma truncatedMessage_text:
  "truncatedMessage st enc tc n = \<lparr>content = Text (truncatedText st enc tc n), role = nodeRole n\<rparr>"
  by (simp add: truncatedMessage_def)

subsection \<open>Skipped nodes\<close>

lemma visit_skipped:
  assumes "is_skipped_node m" "maxDepth st = 0 \<or> int d \<le> maxDepth st"
  shows "visit st enc m d s = (True, s)"
proof (cases "nodeText m = []")
  case True
  then show ?thesis
    using visit_cases[OF assms(2), of enc m s]
    by (simp add: is_image_node_def is_text_node_def)
next
  case False
  then obtain t where t: "node_text m = Some t" "isSystemPromptNode t"
    using assms(1) by (auto simp: is_skipped_node_def is_marked_node_def split: option.splits)
  have nt: "nodeText m = trim t" using t(1) by (simp add: nodeText_def)
  have "\<not> is_image_node m" using marked_not_image[OF t(2)] by (simp add: is_image_node_def nt)
  moreover have "\<not> is_text_node m" using t(2) by (simp add: is_text_node_def nt marked_trim)
  ultimately show ?thesis
    using visit_cases[OF assms(2), of enc m s] by simp
qed

lemma visit_marked: "is_marked_node m \<Longrightarrow> snd (visit st enc m d s) = s"
proof (cases "maxDepth st \<noteq> 0 \<and> int d > maxDepth st")
  case True
  then show ?thesis by (simp add: visit_gate)
next
  case False
  assume "is_marked_node m"
  then have "is_skipped_node m" by (simp add: is_skipped_node_def)
  moreover have "maxDepth st = 0 \<or> int d \<le> maxDepth st" using False by auto
  ultimately show ?thesis by (simp add: visit_skipped)
qed

lemma fold_fixed: "(\<And>p. p \<in> set ps \<Longrightarrow> f p s = s) \<Longrightarrow> fold f ps s = s"
  by (induction ps) auto

lemma walk_skipped:
  assumes "\<forall>m\<in>set (nodes_within_depth st n d). is_skipped_node m"
  shows "visitNodeAndAncestors (visit st enc) n d s = s"
  using assms
proof (induction n arbitrary: d)
  case (CanvasNode i t r ps)
  show ?case
  proof (cases "maxDepth st \<noteq> 0 \<and> int d > maxDepth st")
    case True
    then show ?thesis by (simp add: visit_gate)
  next
    case False
    then have g: "maxDepth st = 0 \<or> int d \<le> maxDepth st" by auto
    have sk: "is_skipped_node (CanvasNode i t r ps)"
      using CanvasNode.prems False by simp
    have ps: "visitNodeAndAncestors (visit st enc) p (Suc d) s = s" if "p \<in> set ps" for p
      using CanvasNode.IH[OF that, of "Suc d"] CanvasNode.prems False that by auto
    have "fold (\<lambda>p. visitNodeAndAncestors (visit st enc) p (Suc d)) ps s = s"
      by (rule fold_fixed) (rule ps)
    then show ?thesis
      using visit_skipped[OF sk g, of enc s] by simp
  qed
qed

subsection \<open>Truncation\<close>

text \<open>While the running token count is below the input limit, a truncation keeps the first
  \<open>limit - tokenCount - 1\<close> tokens, and the count stays within \<open>limit - 1\<close>.\<close>

lemma truncation_below_limit:
  assumes "maxDepth st = 0 \<or> int d \<le> maxDepth st"
      and "is_text_node node"
      and "tokenCount s + int (length (encode enc (nodeText node))) > getTokenLimit st"
      and "tokenCount s < getTokenLimit st"
  shows "visit st enc node d s =
           (False,
            \<lparr>messages = \<lparr>content = Text (truncatedText st enc (tokenCount s) node),
                          role = nodeRole node\<rparr> # messages s,
             tokenCount = tokenCount s + int (length (keptTokens st enc (tokenCount s) node))\<rparr>) \<and>
         keptTokens st enc (tokenCount s) node =
           take (nat (getTokenLimit st - tokenCount s - 1)) (encode enc (nodeText node)) \<and>
         tokenCount s + int (length (keptTokens st enc (tokenCount s) node))
           \<le> getTokenLimit st - 1"
proof -
  let ?e = "getTokenLimit st - tokenCount s - 1"
  let ?ks = "take (nat ?e) (encode enc (nodeText node))"
  have e: "0 \<le> ?e" using assms(4) by simp
  have ks: "keptTokens st enc (tokenCount s) node = ?ks"
    by (simp add: keptTokens_def slice0_nonneg[OF e])
  have len: "int (length ?ks) \<le> ?e" using e by simp
  have v: "visit st enc node d s =
           (False,
            \<lparr>messages = \<lparr>content = Text (truncatedText st enc (tokenCount s) node),
                          role = nodeRole node\<rparr> # messages s,
             tokenCount = tokenCount s + int (length (keptTokens st enc (tokenCount s) node))\<rparr>)"
    using visit_cases[OF assms(1), of enc node s] assms(2,3) text_not_image[OF assms(2)]
    by (simp add: nodeTokens_def truncatedMessage_text)
  have len': "tokenCount s + int (length (keptTokens st enc (tokenCount s) node))
           \<le> getTokenLimit st - 1"
    unfolding ks using len by linarith
  show ?thesis using v ks len' by blast
qed

text \<open>
  Claim C1, at the failing input. With an input limit of 2, no system prompt and one token
  per character, the start node \<open>ab\<close> fits exactly and brings the running count to the
  limit. Its parent \<open>cdef\<close> overflows, and \<open>nodeTokens.slice(0, 2 - 2 - 1)\<close> has the end
  \<open>-1\<close>, which drops the last token only: three tokens are kept where the one-token margin
  leaves room for none, the accepted token count is 5, and the truncated text \<open>cde\<close>
  encodes to 3 tokens again.
\<close>

theorem exact_fit_exceeds_limit:
  "getTokenLimit (mkSettings [] 2 0) = 2 \<and>
   visitNodeAndAncestors (visit (mkSettings [] 2 0) charTokens) (textNode ''ab'' []) 0
       \<lparr>messages = [], tokenCount = 0\<rparr> =
     \<lparr>messages = [\<lparr>content = Text ''ab'', role = User\<rparr>], tokenCount = 2\<rparr> \<and>
   keptTokens (mkSettings [] 2 0) charTokens 2 (textNode ''cdef'' []) = [99, 100, 101] \<and>
   buildMessages (mkSettings [] 2 0) charTokens (textNode ''ab'' [textNode ''cdef'' []]) None =
     ([\<lparr>content = Text ''cde'', role = User\<rparr>, \<lparr>content = Text ''ab'', role = User\<rparr>], 5) \<and>
   int (length (encode charTokens ''cde'')) = 3"
  by code_simp

subsection \<open>Chains within the limit\<close>

text \<open>
  Claim C3, as amended. For an ancestor chain whose nodes within the configured depth,
  with the system prompt, stay within the input limit, \<open>buildMessages node None\<close> returns
  the message of every text node and image node within the depth exactly once, the root
  first and the start node last, after the system message if the prompt is not empty; the
  token count is the system prompt's cost plus the encoded length of each text node. When
  no node yields a message the result is \<open>([], 0)\<close>, whatever the system prompt costs.
\<close>

theorem chain_within_limit:
  assumes "is_chain n"
      and "systemCost enc (getSystemPrompt st n) + chainTokens enc (within_depth st (path n))
             \<le> getTokenLimit st"
  shows "buildMessages st enc n None =
          (if List.map_filter wholeMessage (rev (within_depth st (path n))) = [] then ([], 0)
           else (systemMessages (getSystemPrompt st n) @
                   List.map_filter wholeMessage (rev (within_depth st (path n))),
                 systemCost enc (getSystemPrompt st n) +
                   chainTokens enc (within_depth st (path n))))"
proof -
  let ?vis = "within_depth st (path n)"
  let ?s0 = "\<lparr>messages = [], tokenCount = systemCost enc (getSystemPrompt st n)\<rparr>"
  have w: "walk_list (visit st enc) ?vis 0 ?s0 =
        \<lparr>messages = List.map_filter wholeMessage (rev ?vis) @ messages ?s0,
         tokenCount = tokenCount ?s0 + chainTokens enc ?vis\<rparr>"
  proof (cases "?vis = []")
    case True
    then show ?thesis by simp
  next
    case False
    have g: "maxDepth st = 0 \<or> int 0 + int (length ?vis) \<le> maxDepth st + 1"
      using within_depth_length[OF False] by simp
    show ?thesis
      by (rule walk_fits[OF g]) (use assms(2) in simp)
  qed
  show ?thesis
    unfolding buildMessages_chain[OF assms(1)] by (simp add: Let_def w)
qed

theorem chain_within_limit_witness:
  "is_chain chainMixed \<and>
   systemCost charTokens (getSystemPrompt (mkSettings ''D'' 100 0) chainMixed) +
     chainTokens charTokens (within_depth (mkSettings ''D'' 100 0) (path chainMixed))
       \<le> getTokenLimit (mkSettings ''D'' 100 0) \<and>
   buildMessages (mkSettings ''D'' 100 0) charTokens chainMixed None =
     ([\<lparr>content = Text '' SYSTEM PROMPT be brief'', role = System\<rparr>,
       \<lparr>content = Text ''root'', role = User\<rparr>,
       \<lparr>content = Parts (JArr [JObj [(''type'', JStr ''image_url''),
           (''image_url'', JObj [(''url'', JStr ''data:image/png;base64,AA'')])]]),
         role = User\<rparr>,
       \<lparr>content = Text ''hi'', role = Assistant\<rparr>],
      29)"
proof -
  have h1: "is_chain chainMixed" by code_simp
  have h2: "systemCost charTokens (getSystemPrompt (mkSettings ''D'' 100 0) chainMixed) +
     chainTokens charTokens (within_depth (mkSettings ''D'' 100 0) (path chainMixed))
       \<le> getTokenLimit (mkSettings ''D'' 100 0)" by code_simp
  have rhs: "(if List.map_filter wholeMessage
                  (rev (within_depth (mkSettings ''D'' 100 0) (path chainMixed))) = []
              then ([], 0)
              else (systemMessages (getSystemPrompt (mkSettings ''D'' 100 0) chainMixed) @
                   List.map_filter wholeMessage
                     (rev (within_depth (mkSettings ''D'' 100 0) (path chainMixed))),
                 systemCost charTokens (getSystemPrompt (mkSettings ''D'' 100 0) chainMixed) +
                   chainTokens charTokens
                     (within_depth (mkSettings ''D'' 100 0) (path chainMixed)))) =
     ([\<lparr>content = Text '' SYSTEM PROMPT be brief'', role = System\<rparr>,
       \<lparr>content = Text ''root'', role = User\<rparr>,
       \<lparr>content = Parts (JArr [JObj [(''type'', JStr ''image_url''),
           (''image_url'', JObj [(''url'', JStr ''data:image/png;base64,AA'')])]]),
         role = User\<rparr>,
       \<lparr>content = Text ''hi'', role = Assistant\<rparr>],
      29)" by code_simp
  from chain_within_limit[OF h1 h2] have "buildMessages (mkSettings ''D'' 100 0) charTokens chainMixed None =
     ([\<lparr>content = Text '' SYSTEM PROMPT be brief'', role = System\<rparr>,
       \<lparr>content = Text ''root'', role = User\<rparr>,
       \<lparr>content = Parts (JArr [JObj [(''type'', JStr ''image_url''),
           (''image_url'', JObj [(''url'', JStr ''data:image/png;base64,AA'')])]]),
         role = User\<rparr>,
       \<lparr>content = Text ''hi'', role = Assistant\<rparr>],
      29)" unfolding rhs .
  then show ?thesis using h1 h2 by blast
qed

theorem chain_within_limit_counterexample:
  "is_chain (textNode ''a'' [textNode ''b'' [textNode ''c'' []]]) \<and>
   chainTokens charTokens (path (textNode ''a'' [textNode ''b'' [textNode ''c'' []]])) = 3 \<and>
   getTokenLimit (mkSettings [] 100 1) = 100 \<and>
   is_text_node (textNode ''c'' []) \<and>
   buildMessages (mkSettings [] 100 1) charTokens
       (textNode ''a'' [textNode ''b'' [textNode ''c'' []]]) None =
     ([\<lparr>content = Text ''b'', role = User\<rparr>, \<lparr>content = Text ''a'', role = User\<rparr>], 2) \<and>
   is_chain (textNode ''  '' []) \<and>
   systemCost charTokens (getSystemPrompt (mkSettings ''S'' 100 0) (textNode ''  '' [])) = 1 \<and>
   buildMessages (mkSettings ''S'' 100 0) charTokens (textNode ''  '' []) None = ([], 0)"
  by code_simp

subsection \<open>Chains over the limit\<close>

text \<open>
  Claim C2, as amended. For an ancestor chain whose nodes within the configured depth
  include a text node and, with the system prompt, exceed the input limit, the chain splits
  at its first overflowing text node \<open>x\<close>: the nodes \<open>pre\<close> before it (nearer the start node)
  are kept whole, \<open>x\<close> alone is truncated, at the running count it is reached with, and no
  node of \<open>post\<close> beyond it is in the result.
\<close>

theorem chain_over_limit:
  assumes "is_chain n"
      and "vis = within_depth st (path n)"
      and "tc0 = systemCost enc (getSystemPrompt st n)"
      and "tc0 + chainTokens enc vis > getTokenLimit st"
      and "\<exists>y\<in>set vis. is_text_node y"
  shows "\<exists>pre x post.
           vis = pre @ x # post \<and> is_text_node x \<and>
           ((\<forall>y\<in>set pre. \<not> is_text_node y) \<or> tc0 + chainTokens enc pre \<le> getTokenLimit st) \<and>
           tc0 + chainTokens enc pre + nodeTokens enc x > getTokenLimit st \<and>
           buildMessages st enc n None =
             (systemMessages (getSystemPrompt st n) @
                truncatedMessage st enc (tc0 + chainTokens enc pre) x #
                List.map_filter wholeMessage (rev pre),
              tc0 + chainTokens enc pre +
                int (length (keptTokens st enc (tc0 + chainTokens enc pre) x)))"
proof -
  obtain pre x post where
    sp: "vis = pre @ x # post" "is_text_node x"
        "(\<forall>y\<in>set pre. \<not> is_text_node y) \<or> tc0 + chainTokens enc pre \<le> getTokenLimit st"
        "tc0 + chainTokens enc pre + nodeTokens enc x > getTokenLimit st"
    using first_overflow_exists[OF assms(4,5)] by blast
  let ?s0 = "\<lparr>messages = [], tokenCount = tc0\<rparr>"
  have g: "maxDepth st = 0 \<or> int 0 + int (length pre) \<le> maxDepth st"
    using within_depth_gate[of st "path n" pre x post] sp(1) assms(2) by simp
  have w: "walk_list (visit st enc) (pre @ x # post) 0 ?s0 =
           \<lparr>messages = truncatedMessage st enc (tokenCount ?s0 + chainTokens enc pre) x #
                         List.map_filter wholeMessage (rev pre) @ messages ?s0,
            tokenCount = tokenCount ?s0 + chainTokens enc pre +
               int (length (keptTokens st enc (tokenCount ?s0 + chainTokens enc pre) x))\<rparr>"
    by (rule walk_overflow[OF g _ sp(2)]) (use sp(3,4) in simp_all)
  have vis: "within_depth st (path n) = pre @ x # post" using sp(1) assms(2) by simp
  have "buildMessages st enc n None =
             (systemMessages (getSystemPrompt st n) @
                truncatedMessage st enc (tc0 + chainTokens enc pre) x #
                List.map_filter wholeMessage (rev pre),
              tc0 + chainTokens enc pre +
                int (length (keptTokens st enc (tc0 + chainTokens enc pre) x)))"
    unfolding buildMessages_chain[OF assms(1)] vis
    by (simp add: Let_def w[unfolded assms(3)] assms(3))
  then show ?thesis using sp by blast
qed

theorem chain_over_limit_witness:
  "is_chain chainABC \<and>
   path chainABC = within_depth (mkSettings [] 12 0) (path chainABC) \<and>
   0 = systemCost charTokens (getSystemPrompt (mkSettings [] 12 0) chainABC) \<and>
   0 + chainTokens charTokens (path chainABC) > getTokenLimit (mkSettings [] 12 0) \<and>
   (\<exists>y\<in>set (path chainABC). is_text_node y) \<and>
   (\<exists>pre x post.
      path chainABC = pre @ x # post \<and> is_text_node x \<and>
      ((\<forall>y\<in>set pre. \<not> is_text_node y) \<or>
         0 + chainTokens charTokens pre \<le> getTokenLimit (mkSettings [] 12 0)) \<and>
      0 + chainTokens charTokens pre + nodeTokens charTokens x
         > getTokenLimit (mkSettings [] 12 0) \<and>
      buildMessages (mkSettings [] 12 0) charTokens chainABC None =
        (systemMessages (getSystemPrompt (mkSettings [] 12 0) chainABC) @
           truncatedMessage (mkSettings [] 12 0) charTokens (0 + chainTokens charTokens pre) x #
           List.map_filter wholeMessage (rev pre),
         0 + chainTokens charTokens pre +
           int (length (keptTokens (mkSettings [] 12 0) charTokens
                          (0 + chainTokens charTokens pre) x)))) \<and>
   buildMessages (mkSettings [] 12 0) charTokens chainABC None =
     ([\<lparr>content = Text ''C'', role = User\<rparr>, \<lparr>content = Text ''BBBBB'', role = User\<rparr>,
       \<lparr>content = Text ''AAAAA'', role = User\<rparr>], 11)"
proof -
  have h1: "is_chain chainABC" by code_simp
  have h2: "path chainABC = within_depth (mkSettings [] 12 0) (path chainABC)" by code_simp
  have h3: "0 = systemCost charTokens (getSystemPrompt (mkSettings [] 12 0) chainABC)"
    by code_simp
  have h4: "0 + chainTokens charTokens (path chainABC) > getTokenLimit (mkSettings [] 12 0)"
    by code_simp
  have h5: "\<exists>y\<in>set (path chainABC). is_text_node y" by code_simp
  have v: "buildMessages (mkSettings [] 12 0) charTokens chainABC None =
     ([\<lparr>content = Text ''C'', role = User\<rparr>, \<lparr>content = Text ''BBBBB'', role = User\<rparr>,
       \<lparr>content = Text ''AAAAA'', role = User\<rparr>], 11)" by code_simp
  show ?thesis
    using chain_over_limit[OF h1 h2 h3 h4 h5] h1 h2 h3 h4 h5 v by blast
qed

theorem chain_over_limit_counterexample:
  "is_chain (textNode ''a'' [textNode ''b'' [textNode ''cdef'' []]]) \<and>
   chainTokens charTokens (path (textNode ''a'' [textNode ''b'' [textNode ''cdef'' []]])) = 6 \<and>
   getTokenLimit (mkSettings [] 2 1) = 2 \<and>
   buildMessages (mkSettings [] 2 1) charTokens
       (textNode ''a'' [textNode ''b'' [textNode ''cdef'' []]]) None =
     ([\<lparr>content = Text ''b'', role = User\<rparr>, \<lparr>content = Text ''a'', role = User\<rparr>], 2) \<and>
   is_chain (textNode ''data:image/png;base64,AA'' []) \<and>
   systemCost charTokens
     (getSystemPrompt (mkSettings ''SYS'' 2 0) (textNode ''data:image/png;base64,AA'' [])) = 3 \<and>
   getTokenLimit (mkSettings ''SYS'' 2 0) = 2 \<and>
   buildMessages (mkSettings ''SYS'' 2 0) charTokens (textNode ''data:image/png;base64,AA'' []) None =
     ([\<lparr>content = Text ''SYS'', role = System\<rparr>,
       \<lparr>content = Parts (JArr [JObj [(''type'', JStr ''image_url''),
           (''image_url'', JObj [(''url'', JStr ''data:image/png;base64,AA'')])]]),
         role = User\<rparr>], 3)"
  by code_simp

subsection \<open>System prompt nodes\<close>

text \<open>
  On an ancestor chain the resolved system prompt is the content of the first node, from
  the start node on, whose trimmed content starts with \<open>SYSTEM PROMPT\<close>, and the configured
  default if there is none. In every graph \<open>visit\<close> leaves the state as it is on a marked
  node, and no user or assistant message of the build carries a marked text.
\<close>

lemma resolver_on_chain:
  assumes "is_chain n"
  shows "getSystemPrompt st n =
           (case find is_marked_node (path n) of
              Some m \<Rightarrow> rawText m | None \<Rightarrow> systemPrompt st) \<and>
         (\<forall>m d s. is_marked_node m \<longrightarrow> snd (visit st enc m d s) = s) \<and>
         (\<forall>m\<in>set (fst (buildMessages st enc n None)).
            role m \<noteq> System \<longrightarrow> (\<forall>t. content m = Text t \<longrightarrow> \<not> isSystemPromptNode t))"
proof -
  have u: "unmarked_messages (messages (visitNodeAndAncestors (visit st enc) n 0
          \<lparr>messages = [], tokenCount = tc\<rparr>))" for tc
    by (rule walk_unmarked)
  have "\<forall>m\<in>set (fst (buildMessages st enc n None)).
            role m \<noteq> System \<longrightarrow> (\<forall>t. content m = Text t \<longrightarrow> \<not> isSystemPromptNode t)"
    using u unfolding buildMessages_def unmarked_messages_def by (simp add: Let_def)
  then show ?thesis
    using getSystemPrompt_chain[OF assms] visit_marked by blast
qed


subsection \<open>Nothing to send\<close>

text \<open>
  Claim C8. When every node the depth gate lets through is skipped (its content is null,
  empty or white space, or it is marked as a system prompt), \<open>buildMessages\<close> returns
  \<open>([], 0)\<close>, with or without an action prompt, although the walk ends with the system
  prompt's cost as its token count.
\<close>

theorem nothing_to_send:
  assumes "\<forall>m\<in>set (nodes_within_depth st n 0). is_skipped_node m"
  shows "buildMessages st enc n ap = ([], 0) \<and>
         tokenCount (visitNodeAndAncestors (visit st enc) n 0
            \<lparr>messages = [], tokenCount = systemCost enc (getSystemPrompt st n)\<rparr>) =
           systemCost enc (getSystemPrompt st n)"
  by (simp add: buildMessages_def Let_def walk_skipped[OF assms])

theorem nothing_to_send_witness:
  "list_all is_skipped_node (nodes_within_depth (mkSettings ''Default'' 10 1) forkSkipped 0) \<and>
   buildMessages (mkSettings ''Default'' 10 1) charTokens forkSkipped (Some ''act'') = ([], 0) \<and>
   tokenCount (visitNodeAndAncestors (visit (mkSettings ''Default'' 10 1) charTokens) forkSkipped 0
      \<lparr>messages = [],
        tokenCount = systemCost charTokens (getSystemPrompt (mkSettings ''Default'' 10 1) forkSkipped)\<rparr>)
     = 15"
proof -
  have h: "list_all is_skipped_node (nodes_within_depth (mkSettings ''Default'' 10 1) forkSkipped 0)"
    by code_simp
  then have h': "\<forall>m\<in>set (nodes_within_depth (mkSettings ''Default'' 10 1) forkSkipped 0).
                   is_skipped_node m"
    by (simp add: list_all_iff)
  have c: "systemCost charTokens (getSystemPrompt (mkSettings ''Default'' 10 1) forkSkipped) = 15"
    by code_simp
  show ?thesis
    using nothing_to_send[OF h', of charTokens "Some ''act''"] h c by simp
qed

subsection \<open>Image nodes\<close>

text \<open>
  Claim C7. A node that the depth gate lets through and whose trimmed content starts with
  \<open>data:image\<close> (in particular one whose content starts with it, by
  \<open>sentinel_survives_trim\<close>) is emitted as a user message with the image payload, whatever
  the running token count and the limit are; the walk continues, the token count is
  unchanged, and the URL is the whole trimmed content.
\<close>

theorem image_node_emitted:
  assumes "node_text node = Some t"
      and "startsWith (trim t) ''data:image''"
      and "\<not> (maxDepth st \<noteq> 0 \<and> int depth > maxDepth st)"
  shows "visit st enc node depth s =
           (True,
            \<lparr>messages =
               \<lparr>content = Parts (JArr [JObj [(''type'', JStr ''image_url''),
                                  (''image_url'', JObj [(''url'', JStr (trim t))])]]),
                role = User\<rparr> # messages s,
             tokenCount = tokenCount s\<rparr>)"
  using assms unfolding visit_def imageMessage_def
  by (auto simp: Let_def startsWith_def)

theorem image_node_emitted_witness:
  "node_text (CanvasNode 0 (Some '' data:image/png;base64,AAAA'') None []) =
     Some '' data:image/png;base64,AAAA'' \<and>
   startsWith (trim '' data:image/png;base64,AAAA'') ''data:image'' \<and>
   \<not> (maxDepth (mkSettings [] 1 3) \<noteq> 0 \<and> int 2 > maxDepth (mkSettings [] 1 3)) \<and>
   visit (mkSettings [] 1 3) charTokens
      (CanvasNode 0 (Some '' data:image/png;base64,AAAA'') None []) 2
      \<lparr>messages = [], tokenCount = 7\<rparr> =
     (True,
      \<lparr>messages =
         [\<lparr>content = Parts (JArr [JObj [(''type'', JStr ''image_url''),
             (''image_url'', JObj [(''url'', JStr ''data:image/png;base64,AAAA'')])]]),
           role = User\<rparr>],
       tokenCount = 7\<rparr>)"
proof -
  have t: "trim '' data:image/png;base64,AAAA'' = ''data:image/png;base64,AAAA''"
    by (simp add: trim_def is_space_def)
  have h2: "startsWith (trim '' data:image/png;base64,AAAA'') ''data:image''"
    by (simp add: t startsWith_def)
  have h3: "\<not> (maxDepth (mkSettings [] 1 3) \<noteq> 0 \<and> int 2 > maxDepth (mkSettings [] 1 3))"
    by (simp add: mkSettings_def)
  show ?thesis
    using image_node_emitted
      [of "CanvasNode 0 (Some '' data:image/png;base64,AAAA'') None []"
          "'' data:image/png;base64,AAAA''" "mkSettings [] 1 3" 2 charTokens
          "\<lparr>messages = [], tokenCount = 7\<rparr>", OF _ h2 h3]
      h2 h3
    by (simp add: t)
qed

section \<open>Properties of the completion client\<close>
















lemma formatInput_nth:
  "i < length msgs \<Longrightarrow>
   wire_content (formatInput msgs ! i) =
     (case content (msgs ! i) of Text s \<Rightarrow> s | Parts j \<Rightarrow> stringify j)"
  by (simp add: formatInput_def)

lemma escapeChar_plain: "plainChar c \<Longrightarrow> escapeChar c = [c]"
proof -
  assume p: "plainChar c"
  then have n: "\<not> (of_char c :: nat) < 32" by (simp add: plainChar_def)
  have "c \<noteq> CHR 0x08" "c \<noteq> CHR 0x0C" "c \<noteq> CHR 0x0A" "c \<noteq> CHR 0x0D" "c \<noteq> CHR 0x09"
    using n by auto
  then show ?thesis using p n by (simp add: escapeChar_def plainChar_def)
qed

lemma quote_plain: "list_all plainChar s \<Longrightarrow> quote s = CHR 0x22 # s @ [CHR 0x22]"
proof -
  assume "list_all plainChar s"
  then have "concat (map escapeChar s) = s"
    by (induction s) (simp_all add: escapeChar_plain)
  then show ?thesis by (simp add: quote_def)
qed

lemma image_payload_text:
  assumes "list_all plainChar url"
  shows \<open>formatInput [imageMessage url] =
    [WireMessage User (''[{"type":"image_url","image_url":{"url":"'' @ url @ ''"}}]'')]\<close>
proof -
  have k: \<open>quote ''type'' = ''"type"''\<close> \<open>quote ''image_url'' = ''"image_url"''\<close>
          \<open>quote ''url'' = ''"url"''\<close>
    by code_simp+
  show ?thesis
    by (simp add: formatInput_def imageMessage_def k quote_plain[OF assms])
qed

lemma stringify_sample:
  \<open>stringify (JArr [JNull, JBool True, JBool False, JNum (JSNumber False True ''1.5''),
     JNum (JSNumber False False ''Infinity''),
     JStr [CHR ''a'', CHR 0x22, CHR 0x5C, CHR 0x0A, CHR 0x01, CHR 0x1F, CHR 0x7F, CHR 0x09],
     JArr [], JObj [(''k'', JObj []), (''l'', JStr [])]]) =
   ''[null,true,false,1.5,null,"a'' @ [CHR 0x5C] @ ''"'' @ [CHR 0x5C, CHR 0x5C] @
   [CHR 0x5C] @ ''n'' @ [CHR 0x5C] @ ''u0001'' @ [CHR 0x5C] @ ''u001f'' @ [CHR 0x7F] @
   [CHR 0x5C] @ ''t",[],{"k":{},"l":""}]''\<close>
  by code_simp

text \<open>
  Claim C10. The entries of the request's \<open>input\<close> keep the roles of the messages; the
  content of each is the message's string, or \<open>JSON.stringify\<close> of a content that is not a
  string. For the message of an image node whose URL has no quote, backslash or control
  character, as a data URL has none, the entry's content is the JSON text
  \<open>[{"type":"image_url","image_url":{"url":"..."}}]\<close> around the URL; the last equation but
  one fixes the text of each kind of JSON value, with the escapes of a string.
\<close>

theorem image_payload_serialized:
  \<open>map wire_role (formatInput msgs) = map role msgs \<and>
   (\<forall>i<length msgs.
      wire_content (formatInput msgs ! i) =
        (case content (msgs ! i) of Text s \<Rightarrow> s | Parts j \<Rightarrow> stringify j)) \<and>
   (list_all plainChar url \<longrightarrow>
      formatInput [imageMessage url] =
        [WireMessage User (''[{"type":"image_url","image_url":{"url":"'' @ url @ ''"}}]'')]) \<and>
   stringify (JArr [JNull, JBool True, JBool False, JNum (JSNumber False True ''1.5''),
     JNum (JSNumber False False ''Infinity''),
     JStr [CHR ''a'', CHR 0x22, CHR 0x5C, CHR 0x0A, CHR 0x01, CHR 0x1F, CHR 0x7F, CHR 0x09],
     JArr [], JObj [(''k'', JObj []), (''l'', JStr [])]]) =
   ''[null,true,false,1.5,null,"a'' @ [CHR 0x5C] @ ''"'' @ [CHR 0x5C, CHR 0x5C] @
   [CHR 0x5C] @ ''n'' @ [CHR 0x5C] @ ''u0001'' @ [CHR 0x5C] @ ''u001f'' @ [CHR 0x7F] @
   [CHR 0x5C] @ ''t",[],{"k":{},"l":""}]'' \<and>
   input (requestBody st msgs) = formatInput msgs\<close>
proof -
  have 1: "map wire_role (formatInput msgs) = map role msgs"
    by (simp add: formatInput_def comp_def)
  have 2: "\<forall>i<length msgs.
      wire_content (formatInput msgs ! i) =
        (case content (msgs ! i) of Text s \<Rightarrow> s | Parts j \<Rightarrow> stringify j)"
    using formatInput_nth[of _ msgs] by blast
  have 5: "input (requestBody st msgs) = formatInput msgs" by (simp add: requestBody_def)
  show ?thesis
    using 1 2 image_payload_text[of url] stringify_sample 5 by blast
qed

theorem image_payload_serialized_witness:
  \<open>(1::nat) < length [\<lparr>content = Text ''look'', role = User\<rparr>,
                       imageMessage ''data:image/png;base64,iVBOR/w+=''] \<and>
   list_all plainChar ''data:image/png;base64,iVBOR/w+='' \<and>
   wire_content
     (formatInput [\<lparr>content = Text ''look'', role = User\<rparr>,
                   imageMessage ''data:image/png;base64,iVBOR/w+=''] ! 1) =
     ''[{"type":"image_url","image_url":{"url":"data:image/png;base64,iVBOR/w+="}}]'' \<and>
   formatInput [imageMessage ''data:image/png;base64,iVBOR/w+=''] =
     [WireMessage User
        ''[{"type":"image_url","image_url":{"url":"data:image/png;base64,iVBOR/w+="}}]'']\<close>
proof -
  let ?url = "''data:image/png;base64,iVBOR/w+=''"
  let ?msgs = "[\<lparr>content = Text ''look'', role = User\<rparr>, imageMessage ?url]"
  have l: "(1::nat) < length ?msgs" by simp
  have p: "list_all plainChar ?url" by code_simp
  have e1: \<open>(case content (?msgs ! 1) of Text s \<Rightarrow> s | Parts j \<Rightarrow> stringify j) =
     ''[{"type":"image_url","image_url":{"url":"data:image/png;base64,iVBOR/w+="}}]''\<close>
    by code_simp
  from image_payload_serialized[of ?msgs ?url] have
    n: "\<forall>i<length ?msgs. wire_content (formatInput ?msgs ! i) =
        (case content (?msgs ! i) of Text s \<Rightarrow> s | Parts j \<Rightarrow> stringify j)"
    and u: \<open>list_all plainChar ?url \<longrightarrow>
      formatInput [imageMessage ?url] =
        [WireMessage User (''[{"type":"image_url","image_url":{"url":"'' @ ?url @ ''"}}]'')]\<close>
    by blast+
  have a: "wire_content (formatInput ?msgs ! 1) =
        (case content (?msgs ! 1) of Text s \<Rightarrow> s | Parts j \<Rightarrow> stringify j)"
    using n l by blast
  have b: \<open>formatInput [imageMessage ?url] =
     [WireMessage User
        ''[{"type":"image_url","image_url":{"url":"data:image/png;base64,iVBOR/w+="}}]'']\<close>
    using u p by simp
  show ?thesis using l p a b unfolding e1 by simp
qed

section \<open>Properties of generating a note\<close>

lemma freshId_gt: "n \<in> set (nodes c) \<Longrightarrow> note_id n < freshId c"
proof -
  have "x \<in> set xs \<Longrightarrow> x \<le> fold max xs (a::nat)" for x xs a
  proof (induction xs arbitrary: a)
    case Nil
    then show ?case by simp
  next
    case (Cons y ys)
    have mono: "a \<le> fold max ys a" for a :: nat
      by (induction ys arbitrary: a) (auto intro: order_trans[OF max.cobounded2])
    show ?case
    proof (cases "x = y")
      case True
      then show ?thesis using mono[of "max y a"] by simp
    next
      case False
      then show ?thesis using Cons by simp
    qed
  qed
  from this[of "note_id n" "map note_id (nodes c)" 0] show "n \<in> set (nodes c) \<Longrightarrow> note_id n < freshId c"
    by (auto simp: freshId_def)
qed

lemma removeNode_gone: "created \<notin> note_id ` set (nodes (removeNode c created))"
  by (auto simp: removeNode_def)

lemma failure_removes_placeholder:
  assumes "reply = Inl err \<or> reply = Inr None \<or> reply = Inr (Some JNull)"
  shows "created \<notin> note_id ` set (nodes (fst (integrateReply c node created label sending reply))) \<and>
         snd (integrateReply c node created label sending reply) =
           [sending, case reply of Inl e \<Rightarrow> ErrorCalling e | Inr v \<Rightarrow> EmptyResponse]"
  using assms removeNode_gone[of created c]
  by (auto simp: integrateReply_def)

lemma createNode_fresh:
  "fst (createNode c parent text color chatRole) \<notin> note_id ` set (nodes c)"
proof
  assume "fst (createNode c parent text color chatRole) \<in> note_id ` set (nodes c)"
  then obtain n where n: "n \<in> set (nodes c)" "note_id n = freshId c"
    by (auto simp: createNode_def Let_def)
  then show False using freshId_gt[OF n(1)] by simp
qed

text \<open>A request that fails, or whose reply is \<open>undefined\<close> or \<open>null\<close>, leaves no placeholder
  and is reported.\<close>

lemma failed_request_removes_placeholder:
  assumes "apiKey st \<noteq> []"
      and "selection c = Some [node]"
      and "buildMessages st enc (view node) actionPrompt = (msgs, tokens)"
      and "msgs \<noteq> []"
      and "createNode c node (''Calling AI ('' @ apiModel st @ '')...'')
             (Some assistantColor) (Some ''assistant'') = (created, c1)"
      and "completionResult resp = Inl err \<or> completionResult resp = Inr None \<or>
           completionResult resp = Inr (Some JNull)"
  shows "\<exists>c'. generateNote st enc view actionName actionPrompt explicitLabel during resp (Some c) =
                (Some c',
                 [Sending (length msgs) tokens,
                  case completionResult resp of Inl e \<Rightarrow> ErrorCalling e | Inr v \<Rightarrow> EmptyResponse]) \<and>
              created \<notin> note_id ` set (nodes c')"
proof -
  let ?label = "(case explicitLabel of
                   Some l \<Rightarrow> if l \<noteq> [] then l else actionName | None \<Rightarrow> actionName)"
  let ?r = "integrateReply (during c1) node created ?label (Sending (length msgs) tokens)
              (completionResult resp)"
  have g: "generateNote st enc view actionName actionPrompt explicitLabel during resp (Some c) =
           (Some (fst ?r), snd ?r)"
    using assms(1-5) by (simp add: generateNote_def Let_def split: prod.splits)
  show ?thesis
    unfolding g
    using failure_removes_placeholder[OF assms(6), of created "during c1" node ?label
        "Sending (length msgs) tokens"]
    by simp
qed

lemma integrateReply_success:
  assumes "generated \<noteq> JNull"
  shows "integrateReply c node created label sending (Inr (Some generated)) =
           (let c2 = addEdge (setText c created generated) node created label;
                selectedNoteId = (case selection c2 of Some [x] \<Rightarrow> Some x | _ \<Rightarrow> None)
            in (if selectedNoteId = Some node \<or> selectedNoteId = None then selectOnly c2 created
                else c2,
                [sending]))"
  using assms by (cases generated) (simp_all add: integrateReply_def)

lemma integrateReply_selection:
  assumes "generated \<noteq> JNull"
  shows "selection (fst (integrateReply c node created label sending (Inr (Some generated)))) =
           (case selection c of
              Some [x] \<Rightarrow> if x = node then Some [created] else Some [x]
            | _ \<Rightarrow> Some [created])"
proof -
  have sel: "selection (addEdge (setText c created generated) node created label) = selection c"
    by (simp add: addEdge_def setText_def)
  show ?thesis
  proof (cases "selection c")
    case None
    then show ?thesis
      by (simp add: integrateReply_success[OF assms] Let_def sel selectOnly_def)
  next
    case (Some xs)
    show ?thesis
    proof (cases xs)
      case Nil
      then show ?thesis using Some
        by (simp add: integrateReply_success[OF assms] Let_def sel selectOnly_def)
    next
      case (Cons x ys)
      then show ?thesis using Some
        by (cases ys) (simp_all add: integrateReply_success[OF assms] Let_def sel selectOnly_def)
    qed
  qed
qed

text \<open>
  Claim C9, as amended. After a reply that is not \<open>null\<close> or \<open>undefined\<close> is integrated,
  the selection is the new reply node when the selection at that moment is exactly the
  source node, or is not a single node (none, empty or several); it is left as it is when
  exactly one other node is selected.
\<close>

theorem selection_after_reply:
  assumes "apiKey st \<noteq> []"
      and "selection c = Some [node]"
      and "buildMessages st enc (view node) actionPrompt = (msgs, tokens)"
      and "msgs \<noteq> []"
      and "createNode c node (''Calling AI ('' @ apiModel st @ '')...'')
             (Some assistantColor) (Some ''assistant'') = (created, c1)"
      and "completionResult resp = Inr (Some generated)"
      and "generated \<noteq> JNull"
  shows "\<exists>c'. fst (generateNote st enc view actionName actionPrompt explicitLabel during resp
                     (Some c)) = Some c' \<and>
              selection c' =
                (case selection (during c1) of
                   Some [x] \<Rightarrow> if x = node then Some [created] else Some [x]
                 | _ \<Rightarrow> Some [created])"
proof -
  let ?label = "(case explicitLabel of
                   Some l \<Rightarrow> if l \<noteq> [] then l else actionName | None \<Rightarrow> actionName)"
  let ?r = "integrateReply (during c1) node created ?label (Sending (length msgs) tokens)
              (Inr (Some generated))"
  have g: "fst (generateNote st enc view actionName actionPrompt explicitLabel during resp
                 (Some c)) = Some (fst ?r)"
    using assms(1-6) by (simp add: generateNote_def Let_def split: prod.splits)
  have "selection (fst ?r) =
          (case selection (during c1) of
             Some [x] \<Rightarrow> if x = node then Some [created] else Some [x]
           | _ \<Rightarrow> Some [created])"
    by (rule integrateReply_selection[OF assms(7)])
  then show ?thesis using g by simp
qed

theorem selection_after_reply_witness:
  "apiKey (mkSettings [] 100 0) \<noteq> [] \<and>
   selection oneNote = Some [4] \<and>
   buildMessages (mkSettings [] 100 0) charTokens (helloView 4) None =
     ([\<lparr>content = Text ''hello'', role = User\<rparr>], 5) \<and>
   [\<lparr>content = Text ''hello'', role = User\<rparr>] \<noteq> [] \<and>
   fst (createNode oneNote 4 (''Calling AI ('' @ apiModel (mkSettings [] 100 0) @ '')...'')
          (Some assistantColor) (Some ''assistant'')) = 5 \<and>
   completionResult (Parsed flatReply) = Inr (Some (JStr ''flat'')) \<and>
   JStr ''flat'' \<noteq> JNull \<and>
   (\<exists>c'. fst (generateNote (mkSettings [] 100 0) charTokens helloView ''Ask'' None None
                 selectOther (Parsed flatReply) (Some oneNote)) = Some c' \<and>
         selection c' = Some [9]) \<and>
   (\<exists>c'. fst (generateNote (mkSettings [] 100 0) charTokens helloView ''Ask'' None None
                 unchanged (Parsed flatReply) (Some oneNote)) = Some c' \<and>
         selection c' = Some [5])"
proof -
  let ?st = "mkSettings [] 100 0"
  let ?c1 = "snd (createNode oneNote 4 (''Calling AI ('' @ apiModel ?st @ '')...'')
                    (Some assistantColor) (Some ''assistant''))"
  have h1: "apiKey ?st \<noteq> []" by code_simp
  have h2: "selection oneNote = Some [4]" by code_simp
  have h3: "buildMessages ?st charTokens (helloView 4) None =
     ([\<lparr>content = Text ''hello'', role = User\<rparr>], 5)" by code_simp
  have h4: "[\<lparr>content = Text ''hello'', role = User\<rparr>] \<noteq> []" by simp
  have f: "fst (createNode oneNote 4 (''Calling AI ('' @ apiModel ?st @ '')...'')
          (Some assistantColor) (Some ''assistant'')) = 5" by code_simp
  then have h5: "createNode oneNote 4 (''Calling AI ('' @ apiModel ?st @ '')...'')
          (Some assistantColor) (Some ''assistant'') = (5, ?c1)"
    by (metis prod.collapse)
  have h6: "completionResult (Parsed flatReply) = Inr (Some (JStr ''flat''))" by code_simp
  have h7: "JStr ''flat'' \<noteq> JNull" by simp
  have s1: "(case selection (selectOther ?c1) of
                   Some [x] \<Rightarrow> if x = 4 then Some [5] else Some [x]
                 | _ \<Rightarrow> Some [5::nat]) = Some [9]" by code_simp
  have s2: "(case selection (unchanged ?c1) of
                   Some [x] \<Rightarrow> if x = 4 then Some [5] else Some [x]
                 | _ \<Rightarrow> Some [5::nat]) = Some [5]" by code_simp
  have a: "\<exists>c'. fst (generateNote ?st charTokens helloView ''Ask'' None None
                 selectOther (Parsed flatReply) (Some oneNote)) = Some c' \<and>
         selection c' = Some [9]"
    using selection_after_reply[where view = helloView and node = 4 and actionName = "''Ask''"
        and explicitLabel = None and during = selectOther, OF h1 h2 h3 h4 h5 h6 h7]
    unfolding s1 by simp
  have b: "\<exists>c'. fst (generateNote ?st charTokens helloView ''Ask'' None None
                 unchanged (Parsed flatReply) (Some oneNote)) = Some c' \<and>
         selection c' = Some [5]"
    using selection_after_reply[where view = helloView and node = 4 and actionName = "''Ask''"
        and explicitLabel = None and during = unchanged, OF h1 h2 h3 h4 h5 h6 h7]
    unfolding s2 by simp
  show ?thesis using h1 h2 h3 h4 f h6 h7 a b by blast
qed

theorem selection_after_reply_counterexample:
  "selection (deselect oneNote) = Some [] \<and>
   generateNote (mkSettings [] 100 0) charTokens helloView ''Ask'' None None
       deselect (Parsed flatReply) (Some oneNote) =
     (Some \<lparr>nodes =
              [\<lparr>note_id = 4, note_text = JStr ''hello'', note_color = None, note_role = None\<rparr>,
               \<lparr>note_id = 5, note_text = JStr ''flat'', note_color = Some ''6'',
                note_role = Some ''assistant''\<rparr>],
            edges = [(4, 5, ''Ask'')], selection = Some [5]\<rparr>,
      [Sending 1 5])"
  by code_simp

text \<open>
  Claim C6, at the failing input. A response with an empty \<open>content\<close> array makes the
  client return the empty string, which \<open>generated == null\<close> lets through: the placeholder
  stays, with an empty text and an edge, and no failure is reported. The nested shape with
  the same empty text returns \<open>undefined\<close>, and there the placeholder is removed.
\<close>

theorem empty_reply_keeps_placeholder:
  "completionResult (Parsed (JObj [(''content'', JArr [])])) = Inr (Some (JStr [])) \<and>
   generateNote (mkSettings [] 100 0) charTokens helloView ''Ask'' None None
       unchanged (Parsed (JObj [(''content'', JArr [])])) (Some oneNote) =
     (Some \<lparr>nodes =
              [\<lparr>note_id = 4, note_text = JStr ''hello'', note_color = None, note_role = None\<rparr>,
               \<lparr>note_id = 5, note_text = JStr [], note_color = Some ''6'',
                note_role = Some ''assistant''\<rparr>],
            edges = [(4, 5, ''Ask'')], selection = Some [5]\<rparr>,
      [Sending 1 5]) \<and>
   completionResult (Parsed (JObj [(''output'', JArr [JObj [(''content'', JArr [])]])])) =
     Inr None \<and>
   generateNote (mkSettings [] 100 0) charTokens helloView ''Ask'' None None
       unchanged (Parsed (JObj [(''output'', JArr [JObj [(''content'', JArr [])]])]))
       (Some oneNote) =
     (Some oneNote, [Sending 1 5, EmptyResponse])"
  by code_simp

end
